theory Spec2Isabelle
  imports Complex_Main "HOL-Library.AList"
begin

section \<open>Python values, exceptions and the random module\<close>

text \<open>
  Every exception the modelled code can raise is a value; a function that can raise returns
  \<open>error + 'a\<close>, with \<open>Inl\<close> for the exception. \<open>Exception\<close> is the bare
  \<^verbatim>\<open>raise Exception(...)\<close> of simulation.py.
\<close>

datatype error = KeyError | ValueError | IndexError | TypeError | Exception

definition bind_err :: "error + 'a \<Rightarrow> ('a \<Rightarrow> error + 'b) \<Rightarrow> error + 'b" where
  "bind_err m f = (case m of Inl e \<Rightarrow> Inl e | Inr x \<Rightarrow> f x)"

text \<open>A \<^verbatim>\<open>for x in xs: body\<close> loop (or \<^verbatim>\<open>list(map(body, xs))\<close>) over a
  body that mutates the state and may raise: the first exception ends the loop.\<close>

fun fold_err :: "('a \<Rightarrow> 's \<Rightarrow> error + 's) \<Rightarrow> 'a list \<Rightarrow> 's \<Rightarrow> error + 's" where
  "fold_err f [] s = Inr s"
| "fold_err f (x # xs) s = (case f x s of Inl e \<Rightarrow> Inl e | Inr s' \<Rightarrow> fold_err f xs s')"

text \<open>
  The state of the process-wide generator of the \<^verbatim>\<open>random\<close> module is an explicit
  supply: \<open>raws\<close> holds one arbitrary integer for each primitive draw still to come
  (a supply that has run out keeps yielding 0), and \<open>lattices\<close> holds, for each call of
  networkx's lattice generator still to come, the directed links that the library chooses.
\<close>

record rng =
  raws :: "int list"
  lattices :: "((int \<times> int) \<times> (int \<times> int)) list list"

definition next_raw :: "rng \<Rightarrow> int \<times> rng" where
  "next_raw g = (case raws g of [] \<Rightarrow> (0, g) | r # rs \<Rightarrow> (r, g\<lparr>raws := rs\<rparr>))"

text \<open>\<^verbatim>\<open>random.random()\<close>: a multiple of \<open>2^-53\<close> in \<open>[0, 1)\<close>.\<close>

definition random_random :: "rng \<Rightarrow> rat \<times> rng" where
  "random_random g = (case next_raw g of (r, g') \<Rightarrow> (of_int (r mod 2 ^ 53) / 2 ^ 53, g'))"

text \<open>\<^verbatim>\<open>random._randbelow(n)\<close>: an index below \<open>n\<close>.\<close>

definition randbelow :: "nat \<Rightarrow> rng \<Rightarrow> nat \<times> rng" where
  "randbelow n g = (case next_raw g of (r, g') \<Rightarrow> (nat (r mod int n), g'))"

text \<open>
  \<^verbatim>\<open>random.sample(population, k)\<close>, the pool algorithm of the standard library:
  \<^verbatim>\<open>
    if not 0 <= k <= n: raise ValueError
    pool = list(population)
    for i in range(k):
        j = randbelow(n - i)
        result[i] = pool[j]
        pool[j] = pool[n - i - 1]
  \<close>
\<close>

fun sample_loop :: "nat \<Rightarrow> 'a list \<Rightarrow> rng \<Rightarrow> 'a list \<times> rng" where
  "sample_loop 0 pool g = ([], g)"
| "sample_loop (Suc k) pool g =
     (case randbelow (length pool) g of (j, g') \<Rightarrow>
        (case sample_loop k (butlast (pool[j := last pool])) g' of (rest, g'') \<Rightarrow>
           (pool ! j # rest, g'')))"

definition random_sample :: "'a list \<Rightarrow> int \<Rightarrow> rng \<Rightarrow> error + ('a list \<times> rng)" where
  "random_sample population k g =
     (if k < 0 \<or> int (length population) < k then Inl ValueError
      else Inr (sample_loop (nat k) population g))"

text \<open>
  \<^verbatim>\<open>random.shuffle(x)\<close>:
  \<^verbatim>\<open>
    for i in reversed(range(1, len(x))):
        j = randbelow(i + 1)
        x[i], x[j] = x[j], x[i]
  \<close>
\<close>

fun shuffle_loop :: "nat list \<Rightarrow> 'a list \<Rightarrow> rng \<Rightarrow> 'a list \<times> rng" where
  "shuffle_loop [] x g = (x, g)"
| "shuffle_loop (i # rest) x g =
     (case randbelow (i + 1) g of (j, g') \<Rightarrow> shuffle_loop rest (x[i := x ! j, j := x ! i]) g')"

definition random_shuffle :: "'a list \<Rightarrow> rng \<Rightarrow> 'a list \<times> rng" where
  "random_shuffle x g = shuffle_loop (rev [1..<length x]) x g"

text \<open>\<^verbatim>\<open>itertools.combinations(xs, 2)\<close>.\<close>

fun combinations2 :: "'a list \<Rightarrow> ('a \<times> 'a) list" where
  "combinations2 [] = []"
| "combinations2 (x # xs) = map (Pair x) xs @ combinations2 xs"

text \<open>
  \<^verbatim>\<open>math.ceil(math.sqrt(n))\<close> for a natural number \<open>n\<close>: the least \<open>r\<close> with
  \<open>n \<le> r * r\<close> (the floating-point square root is exact enough for this below \<open>2^52\<close>).
\<close>

definition ceil_sqrt :: "nat \<Rightarrow> nat" where
  "ceil_sqrt n = (case find (\<lambda>r. n \<le> r * r) [0..<Suc n] of Some r \<Rightarrow> r | None \<Rightarrow> n)"

section \<open>The networkx graph\<close>

text \<open>
  An undirected \<^verbatim>\<open>networkx.Graph\<close>: the node dictionary in insertion order, for each
  node its adjacency dictionary (neighbour to edge attributes, in insertion order), and the
  node attributes this program uses. An edge's attribute dictionary has the keys
  \<^verbatim>\<open>"weight"\<close> and \<^verbatim>\<open>"interaction_edge"\<close>, each present or not.
\<close>

record edge_attrs =
  weight :: "rat option"
  interaction_edge :: "bool option"

record nx_graph =
  nodes :: "nat list"
  adj :: "nat \<Rightarrow> (nat \<times> edge_attrs) list"
  location :: "nat \<Rightarrow> (int \<times> int) option"
  age_group :: "nat \<Rightarrow> string option"
  visit_days :: "nat \<Rightarrow> string \<Rightarrow> nat list option"

definition no_attrs :: edge_attrs where
  "no_attrs = \<lparr>weight = None, interaction_edge = None\<rparr>"

text \<open>\<^verbatim>\<open>datadict.update(attr)\<close>: the keys of \<open>attr\<close> overwrite.\<close>

definition update_attrs :: "edge_attrs \<Rightarrow> edge_attrs \<Rightarrow> edge_attrs" where
  "update_attrs datadict attr =
     \<lparr>weight = (case weight attr of None \<Rightarrow> weight datadict | Some w \<Rightarrow> Some w),
      interaction_edge =
        (case interaction_edge attr of None \<Rightarrow> interaction_edge datadict | Some b \<Rightarrow> Some b)\<rparr>"

definition add_node :: "nat \<Rightarrow> nx_graph \<Rightarrow> nx_graph" where
  "add_node u G = (if u \<in> set (nodes G) then G else G\<lparr>nodes := nodes G @ [u]\<rparr>)"

definition has_edge :: "nx_graph \<Rightarrow> nat \<Rightarrow> nat \<Rightarrow> bool" where
  "has_edge G u v = (map_of (adj G u) v \<noteq> None)"

text \<open>
  \<^verbatim>\<open>Graph.add_edge(u, v, **attr)\<close>: both end points become nodes, and the one
  attribute dictionary of the edge is stored under \<open>adj[u][v]\<close> and \<open>adj[v][u]\<close>.
\<close>

definition add_edge :: "nat \<Rightarrow> nat \<Rightarrow> edge_attrs \<Rightarrow> nx_graph \<Rightarrow> nx_graph" where
  "add_edge u v attr G =
     (let G1 = add_node v (add_node u G);
          datadict = update_attrs (case map_of (adj G1 u) v of None \<Rightarrow> no_attrs | Some d \<Rightarrow> d) attr;
          adj1 = (adj G1)(u := AList.update v datadict (adj G1 u));
          adj2 = adj1(v := AList.update u datadict (adj1 v))
      in G1\<lparr>adj := adj2\<rparr>)"

text \<open>\<^verbatim>\<open>Graph.remove_edge(u, v)\<close>; networkx raises when there is no such edge.\<close>

definition remove_edge :: "nat \<Rightarrow> nat \<Rightarrow> nx_graph \<Rightarrow> error + nx_graph" where
  "remove_edge u v G =
     (if has_edge G u v then
        (let adj1 = (adj G)(u := AList.delete v (adj G u));
             adj2 = adj1(v := AList.delete u (adj1 v))
         in Inr (G\<lparr>adj := adj2\<rparr>))
      else Inl Exception)"

text \<open>
  A loop \<^verbatim>\<open>for (u, v) in G.edges: body(u, v)\<close>. networkx's edge view walks the
  nodes in order and, for each node \<open>n\<close>, a copy of its adjacency taken when \<open>n\<close> is
  reached; it yields \<open>(n, nbr)\<close> unless \<open>nbr\<close> has been walked before. The body runs
  between two yields, so it sees and changes the graph the view reads.
\<close>

fun for_edges :: "(nat \<Rightarrow> nat \<Rightarrow> nx_graph \<Rightarrow> error + nx_graph) \<Rightarrow> nat list \<Rightarrow> nat list \<Rightarrow>
    nx_graph \<Rightarrow> error + nx_graph" where
  "for_edges body [] seen G = Inr G"
| "for_edges body (n # ns) seen G =
     (case fold_err (\<lambda>nbr G'. if nbr \<in> set seen then Inr G' else body n nbr G')
             (map fst (adj G n)) G of
        Inl e \<Rightarrow> Inl e
      | Inr G' \<Rightarrow> for_edges body ns (n # seen) G')"

section \<open>graph.py: class Graph\<close>

record graph_params =
  short_connection_diameter :: int
  long_connection_diameter :: int
  decay :: rat

record graph_config =
  config_params :: graph_params
  closeness_threshold :: int

text \<open>
  The object is modelled from the moment its configuration has been read; \<open>infection_rate\<close>
  is \<open>None\<close> until \<open>create_graph\<close> sets it. The entries of \<open>close_nodes_arr\<close> are the
  numbers 0 and 1 of the numpy array.
\<close>

record Graph =
  graph :: nx_graph
  time_horizon :: nat
  num_infected :: nat
  graph_config :: graph_config
  infection_rate :: "rat option"
  close_nodes_arr :: "int list list"

definition calculate_chebyshev_dist :: "int \<times> int \<Rightarrow> int \<times> int \<Rightarrow> int" where
  "calculate_chebyshev_dist location_a location_b =
     max \<bar>fst location_a - fst location_b\<bar> \<bar>snd location_a - snd location_b\<bar>"

text \<open>
  The inner loop of \<open>_set_close_nodes_arr\<close> for one \<open>node\<close> at \<open>node_location\<close>; a
  node without a location raises KeyError, an index outside the array IndexError.
\<close>

definition close_nodes_inner :: "nx_graph \<Rightarrow> int \<Rightarrow> nat \<Rightarrow> int \<times> int \<Rightarrow> nat \<Rightarrow>
    int list list \<Rightarrow> error + int list list" where
  "close_nodes_inner G threshold node node_location other_node node_arr =
     (if node \<noteq> other_node then
        (case location G other_node of
           None \<Rightarrow> Inl KeyError
         | Some other_location \<Rightarrow>
             (let chebyshev_dist = calculate_chebyshev_dist other_location node_location in
              if chebyshev_dist \<le> threshold then
                (if node < length node_arr \<and> other_node < length (node_arr ! node)
                 then Inr (node_arr[node := (node_arr ! node)[other_node := 1]])
                 else Inl IndexError)
              else Inr node_arr))
      else Inr node_arr)"

definition close_nodes_outer :: "nx_graph \<Rightarrow> int \<Rightarrow> nat \<Rightarrow> int list list \<Rightarrow>
    error + int list list" where
  "close_nodes_outer G threshold node node_arr =
     (case location G node of
        None \<Rightarrow> Inl KeyError
      | Some node_location \<Rightarrow>
          fold_err (close_nodes_inner G threshold node node_location) (nodes G) node_arr)"

definition set_close_nodes_arr :: "Graph \<Rightarrow> error + Graph" where
  "set_close_nodes_arr GO =
     (let threshold = closeness_threshold (graph_config GO);
          n_nodes = length (nodes (graph GO));
          node_arr = replicate n_nodes (replicate n_nodes 0)
      in case fold_err (close_nodes_outer (graph GO) threshold) (nodes (graph GO)) node_arr of
           Inl e \<Rightarrow> Inl e
         | Inr node_arr' \<Rightarrow> Inr (GO\<lparr>close_nodes_arr := node_arr'\<rparr>))"

text \<open>\<^verbatim>\<open>nx.set_edge_attributes(self.graph, self.infection_rate, "weight")\<close>: every
  edge's attribute dictionary gets the weight.\<close>

definition set_generic_weights :: "Graph \<Rightarrow> Graph" where
  "set_generic_weights GO =
     GO\<lparr>graph := (graph GO)\<lparr>adj := (\<lambda>u. map (\<lambda>(v, d). (v, d\<lparr>weight := infection_rate GO\<rparr>))
                                            (adj (graph GO) u))\<rparr>\<rparr>"

text \<open>
  \<open>_add_new_interaction_edge\<close>. (An \<open>infection_rate\<close> of \<open>None\<close> would be stored as
  a weight of \<open>None\<close>, which the model does not tell apart from no weight.)
\<close>

definition add_new_interaction_edge :: "nat \<times> nat \<Rightarrow> Graph \<Rightarrow> Graph" where
  "add_new_interaction_edge pair GO =
     (if \<not> has_edge (graph GO) (fst pair) (snd pair) then
        GO\<lparr>graph := add_edge (fst pair) (snd pair)
                        \<lparr>weight = infection_rate GO, interaction_edge = Some True\<rparr> (graph GO)\<rparr>
      else GO)"

text \<open>\<^verbatim>\<open>row.nonzero()[0].tolist()\<close>: the indices of the non-zero entries.\<close>

definition nonzero :: "int list \<Rightarrow> nat list" where
  "nonzero row = filter (\<lambda>j. row ! j \<noteq> 0) [0..<length row]"

definition set_group_interaction_edges :: "string \<Rightarrow> nat \<Rightarrow> nat list \<Rightarrow> int \<Rightarrow> Graph \<times> rng \<Rightarrow>
    error + (Graph \<times> rng)" where
  "set_group_interaction_edges behaviour node other_nodes group_size = (\<lambda>(GO, g).
     bind_err
       (if behaviour = ''food_shopping'' then
          (if node < length (close_nodes_arr GO) then Inr (nonzero (close_nodes_arr GO ! node))
           else Inl IndexError)
        else Inr other_nodes)
       (\<lambda>other_nodes'.
          let size = (if group_size \<le> int (length other_nodes') then group_size
                      else int (length other_nodes'))
          in bind_err (random_sample other_nodes' size g) (\<lambda>(new_group, g').
               let new_edges = (if behaviour = ''food_shopping'' then map (Pair node) new_group
                                else combinations2 (new_group @ [node]))
               in Inr (fold add_new_interaction_edge new_edges GO, g'))))"

definition remove_if_interaction :: "nat \<Rightarrow> nat \<Rightarrow> nx_graph \<Rightarrow> error + nx_graph" where
  "remove_if_interaction u v G =
     (case map_of (adj G u) v of
        None \<Rightarrow> Inl KeyError
      | Some d \<Rightarrow> if interaction_edge d \<noteq> None then remove_edge u v G else Inr G)"

definition remove_group_interaction_edges :: "Graph \<Rightarrow> error + Graph" where
  "remove_group_interaction_edges GO =
     bind_err (for_edges remove_if_interaction (nodes (graph GO)) [] (graph GO))
       (\<lambda>G'. Inr (GO\<lparr>graph := G'\<rparr>))"

text \<open>
  \<open>_set_ages\<close>; \<^verbatim>\<open>nx.set_node_attributes\<close> skips the keys that are not nodes.
\<close>

definition set_ages :: "(string \<times> nat) list \<Rightarrow> Graph \<times> rng \<Rightarrow> Graph \<times> rng" where
  "set_ages age_struct = (\<lambda>(GO, g).
     let age_group_list = concat (map (\<lambda>(grp, n). replicate n grp) age_struct) in
     case random_shuffle age_group_list g of (shuffled, g') \<Rightarrow>
       (GO\<lparr>graph := (graph GO)\<lparr>age_group :=
              (\<lambda>i. if i < length shuffled \<and> i \<in> set (nodes (graph GO)) then Some (shuffled ! i)
                    else age_group (graph GO) i)\<rparr>\<rparr>, g'))"

text \<open>
  \<^verbatim>\<open>nx.navigable_small_world_graph(n, p, q, r, dim=2)\<close> is library code. It raises
  when \<open>p < 1\<close>, \<open>q < 0\<close> or \<open>r < 0\<close>. Otherwise, by its documentation, the result is a
  directed graph on the \<open>n * n\<close> points of the grid; which links it has depends on \<open>p\<close>,
  \<open>q\<close>, \<open>r\<close> and on the library's random choices, and is taken from the supply. The
  directed graph is its node list and its list of links.
\<close>

definition navigable_small_world_graph :: "nat \<Rightarrow> int \<Rightarrow> int \<Rightarrow> rat \<Rightarrow> rng \<Rightarrow>
    error + (((int \<times> int) list \<times> ((int \<times> int) \<times> (int \<times> int)) list) \<times> rng)" where
  "navigable_small_world_graph n p q r g =
     (if p < 1 \<or> q < 0 \<or> r < 0 then Inl Exception
      else
        (let grid = List.product (map int [0..<n]) (map int [0..<n]);
             links = (case lattices g of [] \<Rightarrow> [] | l # _ \<Rightarrow> l)
         in Inr ((grid, filter (\<lambda>(a, b). a \<in> set grid \<and> b \<in> set grid) links),
                 g\<lparr>lattices := tl (lattices g)\<rparr>)))"

definition index_of :: "'a list \<Rightarrow> 'a \<Rightarrow> nat" where
  "index_of xs x = length (takeWhile (\<lambda>y. y \<noteq> x) xs)"

text \<open>
  \<^verbatim>\<open>nx.convert_node_labels_to_integers(digraph.to_undirected(), label_attribute="location")\<close>:
  the nodes become \<open>0, 1, ...\<close> in node order, the old label is kept as the location, and
  every link becomes an undirected edge with no attributes.
\<close>

definition convert_node_labels_to_integers :: "(int \<times> int) list \<Rightarrow>
    ((int \<times> int) \<times> (int \<times> int)) list \<Rightarrow> nx_graph" where
  "convert_node_labels_to_integers dnodes dedges =
     fold (\<lambda>(a, b). add_edge (index_of dnodes a) (index_of dnodes b) no_attrs) dedges
       \<lparr>nodes = [0..<length dnodes], adj = (\<lambda>u. []),
        location = (\<lambda>i. if i < length dnodes then Some (dnodes ! i) else None),
        age_group = (\<lambda>i. None), visit_days = (\<lambda>i b. None)\<rparr>"

text \<open>\<^verbatim>\<open>graph.remove_edges_from(nx.selfloop_edges(graph))\<close>.\<close>

definition remove_selfloops :: "nx_graph \<Rightarrow> nx_graph" where
  "remove_selfloops G = G\<lparr>adj := (\<lambda>u. AList.delete u (adj G u))\<rparr>"

definition set_navigable_small_world_graph :: "(string \<times> nat) list \<Rightarrow> int \<Rightarrow> int \<Rightarrow> rat \<Rightarrow>
    Graph \<times> rng \<Rightarrow> error + (Graph \<times> rng)" where
  "set_navigable_small_world_graph age_struct short_diameter long_diameter dec = (\<lambda>(GO, g).
     let num_people = sum_list (map snd age_struct);
         root_num_people = ceil_sqrt num_people
     in bind_err
          (navigable_small_world_graph root_num_people short_diameter long_diameter dec g)
          (\<lambda>((dnodes, dedges), g1).
            let num_extra = int (root_num_people ^ 2) - int num_people in
            bind_err (random_sample dnodes num_extra g1) (\<lambda>(extra_nodes, g2).
              let dnodes' = filter (\<lambda>a. a \<notin> set extra_nodes) dnodes;
                  dedges' = filter (\<lambda>(a, b). a \<notin> set extra_nodes \<and> b \<notin> set extra_nodes) dedges;
                  G = remove_selfloops (convert_node_labels_to_integers dnodes' dedges');
                  GO1 = set_generic_weights (GO\<lparr>graph := G\<rparr>)
              in case set_ages age_struct (GO1, g2) of
                   (GO2, g3) \<Rightarrow> bind_err (set_close_nodes_arr GO2) (\<lambda>GO3. Inr (GO3, g3)))))"

definition create_graph :: "(string \<times> nat) list \<Rightarrow> rat \<Rightarrow> Graph \<times> rng \<Rightarrow> error + (Graph \<times> rng)" where
  "create_graph age_struct rate = (\<lambda>(GO, g).
     set_navigable_small_world_graph age_struct
       (short_connection_diameter (config_params (graph_config GO)))
       (long_connection_diameter (config_params (graph_config GO)))
       (decay (config_params (graph_config GO)))
       (GO\<lparr>infection_rate := Some rate\<rparr>, g))"

section \<open>params.py: class Params\<close>

text \<open>
  The compartments are the keys of \<open>Model.STATES\<close>. The dictionaries that the code walks in
  order are association lists. \<open>state_transitions\<close> is
  \<^verbatim>\<open>{initial_state: {new_state: {age_group: probability}}}\<close>. \<open>behaviours_dict\<close> is
  what \<open>_convert_behaviours_to_dict\<close> makes of the behaviour strings (the parsing of the
  strings is not modelled). \<open>generic_infection\<close> and \<open>population_size\<close> are \<open>None\<close>
  until the data has been set.
\<close>

datatype state = S | E | A | I | H | D | R

definition STATES :: "state list" where
  "STATES = [S, E, A, I, H, D, R]"

record behaviour_spec =
  visits :: int
  num_people :: int

type_synonym distrib = "(state \<times> (string \<times> rat) list) list"

record Params =
  state_transitions :: "(state \<times> distrib) list"
  generic_infection :: "rat option"
  age_structure :: "(string \<times> nat) list"
  population_size :: "nat option"
  behaviours_dict :: "(string \<times> behaviour_spec) list"

section \<open>model.py: class Model\<close>

text \<open>
  \<open>states_dict\<close> maps a timestep to the dictionary of that timestep, node to compartment.
  \<open>random_state\<close> is the state of the \<^verbatim>\<open>random\<close> module while the model runs.
  Two fields are traces of what the code does and are never read by it: \<open>writes\<close> lists
  every assignment \<^verbatim>\<open>states_dict[t][node] = s\<close> as \<open>(t, node, s)\<close>, in order, and
  \<open>draws\<close> lists every draw of \<open>_infect_neighbours\<close> as
  \<open>(curr_time, node, neighbour, luck, infection_prob)\<close>.
\<close>

record Model =
  params :: Params
  graph_obj :: Graph
  states_dict :: "nat \<Rightarrow> (nat \<times> state) list option"
  curr_time :: nat
  random_state :: rng
  writes :: "(nat \<times> nat \<times> state) list"
  draws :: "(nat \<times> nat \<times> nat \<times> rat \<times> rat) list"

text \<open>Reading and assigning \<^verbatim>\<open>self.states_dict[t][node]\<close>.\<close>

definition get_state :: "Model \<Rightarrow> nat \<Rightarrow> nat \<Rightarrow> error + state" where
  "get_state m t node =
     (case states_dict m t of
        None \<Rightarrow> Inl KeyError
      | Some d \<Rightarrow> (case map_of d node of None \<Rightarrow> Inl KeyError | Some s \<Rightarrow> Inr s))"

definition set_state :: "nat \<Rightarrow> nat \<Rightarrow> state \<Rightarrow> Model \<Rightarrow> error + Model" where
  "set_state t node s m =
     (case states_dict m t of
        None \<Rightarrow> Inl KeyError
      | Some d \<Rightarrow> Inr (m\<lparr>states_dict := (states_dict m)(t \<mapsto> AList.update node s d),
                          writes := writes m @ [(t, node, s)]\<rparr>))"

definition make_states_dict :: "Model \<Rightarrow> error + Model" where
  "make_states_dict m =
     fold_err (\<lambda>guy. set_state 0 guy S) (nodes (graph (graph_obj m)))
       (m\<lparr>states_dict :=
            (\<lambda>timestep. if timestep < time_horizon (graph_obj m) + 1 then Some [] else None)\<rparr>)"

text \<open>
  \<open>_choose_from_distrib\<close>: the loop over the target compartments, then the fallback
  \<^verbatim>\<open>min(distrib.keys())\<close>, which compares the one-letter names. The probabilities
  are rational numbers here; the floating-point rounding of the running sum is not modelled.
\<close>

fun choose_loop :: "string \<Rightarrow> rat \<Rightarrow> rat \<Rightarrow> distrib \<Rightarrow> error + state option" where
  "choose_loop grp max_sum curr_sum [] = Inr None"
| "choose_loop grp max_sum curr_sum ((v, probs) # rest) =
     (case map_of probs grp of
        None \<Rightarrow> Inl KeyError
      | Some p \<Rightarrow> if max_sum \<le> curr_sum + p then Inr (Some v)
                   else choose_loop grp max_sum (curr_sum + p) rest)"

fun letter :: "state \<Rightarrow> nat" where
  "letter A = 65"
| "letter D = 68"
| "letter E = 69"
| "letter H = 72"
| "letter I = 73"
| "letter R = 82"
| "letter S = 83"

definition choose_from_distrib :: "string \<Rightarrow> distrib \<Rightarrow> rng \<Rightarrow> error + (state \<times> rng)" where
  "choose_from_distrib grp distr g =
     (case random_random g of (max_sum, g') \<Rightarrow>
        bind_err (choose_loop grp max_sum 0 distr) (\<lambda>r.
          case r of
            Some v \<Rightarrow> Inr (v, g')
          | None \<Rightarrow> (case map fst distr of
                       [] \<Rightarrow> Inl ValueError
                     | k # ks \<Rightarrow>
                         Inr (fold (\<lambda>x best. if letter x < letter best then x else best) ks k, g'))))"

definition set_visit_days :: "nat \<Rightarrow> string \<times> behaviour_spec \<Rightarrow> Model \<Rightarrow> error + Model" where
  "set_visit_days node = (\<lambda>(behaviour, behaviour_dict) m.
     bind_err (random_sample [0..<7] (visits behaviour_dict) (random_state m)) (\<lambda>(chosen_days, g').
       let G = graph (graph_obj m) in
       Inr (m\<lparr>random_state := g',
              graph_obj := (graph_obj m)\<lparr>graph :=
                G\<lparr>visit_days := (visit_days G)(node := (visit_days G node)(behaviour \<mapsto> chosen_days))\<rparr>\<rparr>\<rparr>)))"

definition do_interaction :: "nat \<Rightarrow> nat \<Rightarrow> nat list \<Rightarrow> string \<times> behaviour_spec \<Rightarrow> Model \<Rightarrow>
    error + Model" where
  "do_interaction node weekday other_nodes = (\<lambda>(behaviour, behaviour_dict) m.
     case visit_days (graph (graph_obj m)) node behaviour of
       None \<Rightarrow> Inl KeyError
     | Some days \<Rightarrow>
         if weekday \<in> set days then
           bind_err (set_group_interaction_edges behaviour node other_nodes
                       (num_people behaviour_dict) (graph_obj m, random_state m))
             (\<lambda>(GO, g'). Inr (m\<lparr>graph_obj := GO, random_state := g'\<rparr>))
         else Inr m)"

definition add_interactions :: "nat \<Rightarrow> Model \<Rightarrow> error + Model" where
  "add_interactions node m =
     (let weekday = curr_time m mod 7;
          other_nodes = filter (\<lambda>other_node. other_node \<noteq> node) (nodes (graph (graph_obj m)))
      in bind_err
           (if weekday = 0 then fold_err (set_visit_days node) (behaviours_dict (params m)) m
            else Inr m)
           (\<lambda>m1. fold_err (do_interaction node weekday other_nodes) (behaviours_dict (params m1)) m1))"

definition remove_interactions :: "Model \<Rightarrow> error + Model" where
  "remove_interactions m =
     bind_err (remove_group_interaction_edges (graph_obj m)) (\<lambda>GO. Inr (m\<lparr>graph_obj := GO\<rparr>))"

definition do_progression :: "nat \<Rightarrow> Model \<Rightarrow> error + Model" where
  "do_progression node m =
     (let next_time = curr_time m + 1 in
      bind_err (get_state m (curr_time m) node) (\<lambda>st.
        case age_group (graph (graph_obj m)) node of
          None \<Rightarrow> Inl KeyError
        | Some node_age_group \<Rightarrow>
            if st \<notin> set [R, D, S] then
              (case map_of (state_transitions (params m)) st of
                 None \<Rightarrow> Inl KeyError
               | Some distr \<Rightarrow>
                   bind_err (choose_from_distrib node_age_group distr (random_state m))
                     (\<lambda>(s', g'). set_state next_time node s' (m\<lparr>random_state := g'\<rparr>)))
            else set_state next_time node st m))"

definition infect_neighbours :: "nat \<Rightarrow> nat \<Rightarrow> Model \<Rightarrow> error + Model" where
  "infect_neighbours node neighbour m =
     bind_err (get_state m (curr_time m) neighbour) (\<lambda>st.
       if st = S then
         (case map_of (adj (graph (graph_obj m)) node) neighbour of
            None \<Rightarrow> Inl KeyError
          | Some d \<Rightarrow>
              (case weight d of
                 None \<Rightarrow> Inl KeyError
               | Some infection_prob \<Rightarrow>
                   (case random_random (random_state m) of (luck, g') \<Rightarrow>
                      let m1 = m\<lparr>random_state := g',
                                 draws := draws m @
                                   [(curr_time m, node, neighbour, luck, infection_prob)]\<rparr>
                      in if luck \<le> infection_prob then set_state (curr_time m + 1) neighbour E m1
                         else Inr m1)))
       else Inr m)"

definition do_infection :: "nat \<Rightarrow> Model \<Rightarrow> error + Model" where
  "do_infection node m =
     bind_err (get_state m (curr_time m) node) (\<lambda>st.
       if st = I \<or> st = A then
         fold_err (infect_neighbours node) (map fst (adj (graph (graph_obj m)) node)) m
       else Inr m)"

text \<open>One round of the loop of \<open>basic_simulation\<close>.\<close>

definition timestep :: "nat \<Rightarrow> Model \<Rightarrow> error + Model" where
  "timestep time m =
     (let m0 = m\<lparr>curr_time := time\<rparr> in
      bind_err (fold_err add_interactions (nodes (graph (graph_obj m0))) m0) (\<lambda>m1.
      bind_err (fold_err do_progression (nodes (graph (graph_obj m1))) m1) (\<lambda>m2.
      bind_err (fold_err do_infection (nodes (graph (graph_obj m2))) m2) remove_interactions)))"

text \<open>The same round, keeping the model after each of its four passes: group interactions
  added, progression done, infection done, interaction edges removed.\<close>

definition timestep_passes :: "nat \<Rightarrow> Model \<Rightarrow> error + (Model \<times> Model \<times> Model \<times> Model)" where
  "timestep_passes time m =
     (let m0 = m\<lparr>curr_time := time\<rparr> in
      bind_err (fold_err add_interactions (nodes (graph (graph_obj m0))) m0) (\<lambda>m1.
      bind_err (fold_err do_progression (nodes (graph (graph_obj m1))) m1) (\<lambda>m2.
      bind_err (fold_err do_infection (nodes (graph (graph_obj m2))) m2) (\<lambda>m3.
      bind_err (remove_interactions m3) (\<lambda>m4. Inr (m1, m2, m3, m4))))))"

text \<open>What a stretch of the run, from \<open>m\<close> to \<open>m'\<close>, appended to the two traces.\<close>

definition new_writes :: "Model \<Rightarrow> Model \<Rightarrow> (nat \<times> nat \<times> state) list" where
  "new_writes m m' = drop (length (writes m)) (writes m')"

definition new_draws :: "Model \<Rightarrow> Model \<Rightarrow> (nat \<times> nat \<times> nat \<times> rat \<times> rat) list" where
  "new_draws m m' = drop (length (draws m)) (draws m')"

definition basic_simulation :: "Model \<Rightarrow> error + Model" where
  "basic_simulation m =
     bind_err (random_sample (nodes (graph (graph_obj m))) (int (num_infected (graph_obj m)))
                 (random_state m)) (\<lambda>(infected, g').
     bind_err (make_states_dict (m\<lparr>random_state := g'\<rparr>)) (\<lambda>m1.
     bind_err (fold_err (\<lambda>vertex. set_state 0 vertex I) infected m1) (\<lambda>m2.
     fold_err timestep [0..<time_horizon (graph_obj m2)] m2)))"

text \<open>\<^verbatim>\<open>Counter(self.states_dict[time].values())\<close>; a missing key of a Counter
  counts 0.\<close>

definition get_state_counts :: "Model \<Rightarrow> nat \<Rightarrow> error + (state \<Rightarrow> nat)" where
  "get_state_counts m time =
     (case states_dict m time of
        None \<Rightarrow> Inl KeyError
      | Some d \<Rightarrow> Inr (\<lambda>s. count_list (map snd d) s))"

text \<open>\<^verbatim>\<open>range(start, stop, step)\<close> for a positive step.\<close>

definition range_step :: "nat \<Rightarrow> nat \<Rightarrow> nat \<Rightarrow> nat list" where
  "range_step start stop step =
     map (\<lambda>k. start + k * step) [0..<(stop - start + step - 1) div step]"

text \<open>\<open>get_results\<close>; the result dictionary has the seven compartments as its keys.\<close>

definition get_results :: "Model \<Rightarrow> error + (state \<Rightarrow> nat list)" where
  "get_results m =
     fold_err (\<lambda>step output_dict.
         bind_err (get_state_counts m step) (\<lambda>counts. Inr (\<lambda>s. output_dict s @ [counts s])))
       (range_step 1 (time_horizon (graph_obj m) + 1) 7) (\<lambda>s. [])"

section \<open>simulation.py: class Simulation\<close>

record Simulation =
  sim_params :: Params
  sim_graph :: Graph
  new_graph_per_run :: bool
  load_graph_filename :: string

definition create_graph_sim :: "Simulation \<times> rng \<Rightarrow> error + (Simulation \<times> rng)" where
  "create_graph_sim = (\<lambda>(sim, g).
     case population_size (sim_params sim) of
       None \<Rightarrow> Inl Exception
     | Some _ \<Rightarrow>
         (case generic_infection (sim_params sim) of
            None \<Rightarrow> Inl Exception
          | Some rate \<Rightarrow>
              bind_err (create_graph (age_structure (sim_params sim)) rate (sim_graph sim, g))
                (\<lambda>(GO, g'). Inr (sim\<lparr>sim_graph := GO\<rparr>, g'))))"

text \<open>\<open>load_graph_from_file\<close>, from the unpickled object \<open>loaded_graph\<close> on.\<close>

definition load_graph_from_file :: "Graph \<Rightarrow> Simulation \<Rightarrow> error + Simulation" where
  "load_graph_from_file loaded_graph sim =
     (let valid_config = (graph_config loaded_graph = graph_config (sim_graph sim));
          valid_time = (time_horizon loaded_graph = time_horizon (sim_graph sim));
          valid_infected = (num_infected loaded_graph = num_infected (sim_graph sim));
          valid_population =
            (Some (length (nodes (graph loaded_graph))) = population_size (sim_params sim));
          valid_infection_rate =
            (infection_rate loaded_graph = generic_infection (sim_params sim))
      in if \<not> (valid_config \<and> valid_time \<and> valid_infected \<and> valid_population \<and>
                valid_infection_rate)
         then Inl Exception
         else Inr (sim\<lparr>sim_graph := loaded_graph\<rparr>))"

text \<open>\<open>run_single\<close>; \<open>files\<close> gives the graph pickled in a file, if the file is there.\<close>

definition run_single :: "(string \<Rightarrow> Graph option) \<Rightarrow> Simulation \<times> rng \<Rightarrow>
    error + ((state \<Rightarrow> nat list) \<times> Simulation \<times> rng)" where
  "run_single files = (\<lambda>(sim, g).
     bind_err
       (if new_graph_per_run sim then
          (if load_graph_filename sim \<noteq> [] then
             (case files (load_graph_filename sim) of
                None \<Rightarrow> Inl Exception
              | Some loaded_graph \<Rightarrow>
                  bind_err (load_graph_from_file loaded_graph sim) (\<lambda>sim'. Inr (sim', g)))
           else create_graph_sim (sim, g))
        else Inr (sim, g))
       (\<lambda>(sim1, g1).
          bind_err (basic_simulation
                      \<lparr>params = sim_params sim1, graph_obj = sim_graph sim1,
                       states_dict = (\<lambda>t. None), curr_time = 0, random_state = g1,
                       writes = [], draws = []\<rparr>) (\<lambda>m.
          bind_err (get_results m) (\<lambda>res.
            Inr (res, sim1\<lparr>sim_params := params m, sim_graph := graph_obj m\<rparr>, random_state m)))))"

text \<open>\<^verbatim>\<open>[self.run_single() for _ in range(n)]\<close>.\<close>

fun run_singles :: "(string \<Rightarrow> Graph option) \<Rightarrow> nat \<Rightarrow> Simulation \<times> rng \<Rightarrow>
    error + ((state \<Rightarrow> nat list) list \<times> Simulation \<times> rng)" where
  "run_singles files 0 sg = Inr ([], sg)"
| "run_singles files (Suc k) sg =
     bind_err (run_single files sg) (\<lambda>(res, sg1).
       bind_err (run_singles files k sg1) (\<lambda>(rest, sg2). Inr (res # rest, sg2)))"

text \<open>\<^verbatim>\<open>zip(*lists)\<close>: the columns, as many as the shortest list has entries.\<close>

definition zip_star :: "'a list list \<Rightarrow> 'a list list" where
  "zip_star ls =
     (case ls of
        [] \<Rightarrow> []
      | l # rest \<Rightarrow> map (\<lambda>i. map (\<lambda>x. x ! i) ls) [0..<fold min (map length rest) (length l)])"

text \<open>
  \<^verbatim>\<open>int(np.round(np.mean(item)))\<close>: the mean, rounded to the nearest integer and to
  the even one at a tie. The mean is the exact quotient here (the floating-point quotient
  rounds the same way for the sizes a population has).
\<close>

definition np_mean :: "nat list \<Rightarrow> rat" where
  "np_mean item = of_nat (sum_list item) / of_nat (length item)"

definition np_round :: "rat \<Rightarrow> int" where
  "np_round x =
     (let f = \<lfloor>x\<rfloor> in
      if x - of_int f < 1 / 2 then f
      else if 1 / 2 < x - of_int f then f + 1
      else if even f then f else f + 1)"

text \<open>\<^verbatim>\<open>max(d, key=d.get)\<close>: the first key, in the order of the dictionary, whose
  entry is largest.\<close>

fun max_by :: "('a \<Rightarrow> int) \<Rightarrow> 'a \<Rightarrow> 'a list \<Rightarrow> 'a" where
  "max_by key best [] = best"
| "max_by key best (x # xs) = max_by key (if key best < key x then x else best) xs"

text \<open>One round of the repair loop of \<open>run_multiple\<close>.\<close>

definition repair_step :: "nat option \<Rightarrow> nat \<Rightarrow> (state \<Rightarrow> int list) \<Rightarrow> error + (state \<Rightarrow> int list)" where
  "repair_step pop ix averaged =
     (if list_ex (\<lambda>s. length (averaged s) \<le> ix) STATES then Inl IndexError
      else
        (let total = sum_list (map (\<lambda>s. averaged s ! ix) STATES) in
         case pop of
           None \<Rightarrow> Inl TypeError
         | Some p \<Rightarrow>
             if total \<noteq> int p then
               (let biggest_state = max_by (\<lambda>s. averaged s ! ix) (hd STATES) (tl STATES)
                in Inr (averaged(biggest_state :=
                          (averaged biggest_state)[ix :=
                             averaged biggest_state ! ix + (int p - total)])))
             else Inr averaged))"

definition run_multiple :: "(string \<Rightarrow> Graph option) \<Rightarrow> nat \<Rightarrow> Simulation \<times> rng \<Rightarrow>
    error + ((state \<Rightarrow> int list) \<times> Simulation \<times> rng)" where
  "run_multiple files n sg =
     bind_err (run_singles files n sg) (\<lambda>(all_results, sim, g).
       let averaged = (\<lambda>s. map (\<lambda>item. np_round (np_mean item))
                                (zip_star (map (\<lambda>state_dict. state_dict s) all_results)))
       in bind_err (fold_err (repair_step (population_size (sim_params sim)))
                      [0..<time_horizon (sim_graph sim) div 7] averaged)
            (\<lambda>averaged'. Inr (averaged', sim, g)))"

section \<open>Loops, traces and frames\<close>

text \<open>
  Facts about the loop combinators, and the vocabulary for what a pass of the simulation
  does: \<open>state_at\<close> reads the state timeline, \<open>write_to\<close> replays one recorded
  assignment, and a pass is described by the assignments and draws it appends to the traces.
\<close>

lemma bind_err_Inr_iff:
  "(bind_err m f = Inr y) = (\<exists>x. m = Inr x \<and> f x = Inr y)"
  by (cases m) (auto simp: bind_err_def)

lemma fold_err_append:
  "fold_err f (xs @ ys) s = bind_err (fold_err f xs s) (fold_err f ys)"
  by (induction xs arbitrary: s) (auto simp: bind_err_def split: sum.splits)

lemma fold_err_rel:
  assumes "fold_err f xs s = Inr s'"
    and "\<And>x a b. x \<in> set xs \<Longrightarrow> f x a = Inr b \<Longrightarrow> Q a b"
    and "\<And>a. Q a a"
    and "\<And>a b c. Q a b \<Longrightarrow> Q b c \<Longrightarrow> Q a c"
  shows "Q s s'"
  using assms(1,2)
proof (induction xs arbitrary: s)
  case Nil
  then show ?case using assms(3) by simp
next
  case (Cons x xs)
  from Cons.prems(1) obtain s1 where s1: "f x s = Inr s1" "fold_err f xs s1 = Inr s'"
    by (auto split: sum.splits)
  have "Q s s1" using Cons.prems(2) [of x s s1] s1(1) by simp
  moreover have "Q s1 s'"
  proof (rule Cons.IH [OF s1(2)])
    fix y a b assume "y \<in> set xs" "f y a = Inr b"
    then show "Q a b" using Cons.prems(2) [of y a b] by simp
  qed
  ultimately show ?case using assms(4) by blast
qed

lemma fold_err_inv:
  assumes "fold_err f xs s = Inr s'"
    and "P s"
    and "\<And>x a b. x \<in> set xs \<Longrightarrow> P a \<Longrightarrow> f x a = Inr b \<Longrightarrow> P b"
  shows "P s'"
  using assms
proof (induction xs arbitrary: s)
  case Nil
  then show ?case by simp
next
  case (Cons x xs)
  from Cons.prems(1) obtain s1 where s1: "f x s = Inr s1" "fold_err f xs s1 = Inr s'"
    by (auto split: sum.splits)
  have "P s1" using Cons.prems(3) [of x s s1] Cons.prems(2) s1(1) by simp
  then show ?case
  proof (rule Cons.IH [OF s1(2)])
    fix y a b assume "y \<in> set xs" "P a" "f y a = Inr b"
    then show "P b" using Cons.prems(3) [of y a b] by simp
  qed
qed

lemma for_edges_inv:
  assumes "for_edges body ns seen G = Inr G'"
    and "P G"
    and "\<And>u v a b. P a \<Longrightarrow> body u v a = Inr b \<Longrightarrow> P b"
  shows "P G'"
  using assms(1,2)
proof (induction ns arbitrary: seen G)
  case Nil
  then show ?case by simp
next
  case (Cons n ns)
  from Cons.prems(1) obtain G1 where
    G1: "fold_err (\<lambda>nbr G'. if nbr \<in> set seen then Inr G' else body n nbr G') (map fst (adj G n)) G = Inr G1"
      "for_edges body ns (n # seen) G1 = Inr G'"
    by (auto split: sum.splits)
  have "P G1"
    by (rule fold_err_inv [where P = P, OF G1(1) Cons.prems(2)]) (auto split: if_splits intro: assms(3))
  then show ?case using Cons.IH [OF G1(2)] by simp
qed

lemma range_step_1_7: "range_step 1 (T + 1) 7 = map (\<lambda>k. 7 * k + 1) [0..<(T + 6) div 7]"
  by (simp add: range_step_def mult.commute add.commute)

lemma get_results_loop:
  assumes "\<And>step. step \<in> set steps \<Longrightarrow> states_dict m step \<noteq> None"
  shows "fold_err (\<lambda>step output_dict.
           bind_err (get_state_counts m step) (\<lambda>counts. Inr (\<lambda>s. output_dict s @ [counts s])))
         steps acc
       = Inr (\<lambda>s. acc s @ map (\<lambda>step. count_list (map snd (the (states_dict m step))) s) steps)"
  using assms
proof (induction steps arbitrary: acc)
  case Nil
  then show ?case by simp
next
  case (Cons a steps)
  from Cons.prems obtain d where d: "states_dict m a = Some d" by fastforce
  show ?case using Cons.IH [of "\<lambda>s. acc s @ [count_list (map snd d) s]"] Cons.prems d
    by (simp add: get_state_counts_def bind_err_def)
qed

lemma get_results_eq:
  assumes "\<And>t. t \<le> time_horizon (graph_obj m) \<Longrightarrow> states_dict m t \<noteq> None"
  shows "get_results m = Inr (\<lambda>s. map (\<lambda>k. count_list (map snd (the (states_dict m (7 * k + 1)))) s)
            [0..<(time_horizon (graph_obj m) + 6) div 7])"
proof -
  let ?steps = "map (\<lambda>k. 7 * k + 1) [0..<(time_horizon (graph_obj m) + 6) div 7]"
  have ok: "states_dict m step \<noteq> None" if "step \<in> set ?steps" for step
  proof -
    from that obtain k where "k < (time_horizon (graph_obj m) + 6) div 7" "step = 7 * k + 1"
      by auto
    then have "step \<le> time_horizon (graph_obj m)" by presburger
    then show ?thesis using assms by blast
  qed
  have "fold_err (\<lambda>step output_dict.
           bind_err (get_state_counts m step) (\<lambda>counts. Inr (\<lambda>s. output_dict s @ [counts s])))
         ?steps (\<lambda>s. [])
       = Inr (\<lambda>s. [] @ map (\<lambda>step. count_list (map snd (the (states_dict m step))) s) ?steps)"
    using ok by (rule get_results_loop)
  then show ?thesis
    unfolding get_results_def range_step_1_7 by (simp add: comp_def)
qed


text \<open>The node list only ever grows at its end, by nodes it did not have.\<close>

definition grows :: "nat list \<Rightarrow> nat list \<Rightarrow> bool" where
  "grows ns ns' \<longleftrightarrow> (\<exists>extra. ns' = ns @ extra \<and> set extra \<inter> set ns = {})"

lemma grows_refl: "grows ns ns"
  by (simp add: grows_def)

lemma grows_trans:
  assumes "grows a b" and "grows b c"
  shows "grows a c"
proof -
  from assms obtain e1 e2 where "b = a @ e1" "set e1 \<inter> set a = {}" "c = b @ e2"
      "set e2 \<inter> set b = {}"
    by (auto simp: grows_def)
  then have "c = a @ (e1 @ e2)" "set (e1 @ e2) \<inter> set a = {}" by auto
  then show ?thesis unfolding grows_def by blast
qed

lemma grows_subset:
  assumes "grows ns ns'" and "set ns' \<subseteq> set ns"
  shows "ns' = ns"
proof -
  from assms(1) obtain extra where e1: "ns' = ns @ extra" and e2: "set extra \<inter> set ns = {}"
    unfolding grows_def by blast
  have sub: "set extra \<subseteq> set ns"
    using assms(2) unfolding e1 by simp
  have "extra = []"
  proof (cases extra)
    case Nil
    then show ?thesis .
  next
    case (Cons x xs)
    then have "x \<in> set extra" by simp
    moreover from this sub have "x \<in> set ns" by (rule subsetD [rotated])
    ultimately have "x \<in> set extra \<inter> set ns" by (rule IntI)
    with e2 show ?thesis by simp
  qed
  then show ?thesis unfolding e1 by simp
qed

lemma add_node_grows: "grows (nodes G) (nodes (add_node u G))"
  by (auto simp: add_node_def grows_def)

lemma add_edge_grows: "grows (nodes G) (nodes (add_edge u v attr G))"
proof -
  have eq: "nodes (add_edge u v attr G) = nodes (add_node v (add_node u G))"
    by (simp add: add_edge_def Let_def)
  have 1: "grows (nodes G) (nodes (add_node u G))"
    by (rule add_node_grows)
  have 2: "grows (nodes (add_node u G)) (nodes (add_node v (add_node u G)))"
    by (rule add_node_grows)
  show ?thesis unfolding eq using 1 2 by (rule grows_trans)
qed

definition static_graph :: "Graph \<Rightarrow> Graph \<Rightarrow> bool" where
  "static_graph GO GO' \<longleftrightarrow>
     time_horizon GO' = time_horizon GO \<and> num_infected GO' = num_infected GO \<and>
     graph_config GO' = graph_config GO \<and> infection_rate GO' = infection_rate GO \<and>
     close_nodes_arr GO' = close_nodes_arr GO \<and>
     location (graph GO') = location (graph GO) \<and> age_group (graph GO') = age_group (graph GO) \<and>
     grows (nodes (graph GO)) (nodes (graph GO'))"

lemma static_graph_refl: "static_graph GO GO"
  by (simp add: static_graph_def grows_refl)

lemma static_graph_trans:
  assumes "static_graph a b" and "static_graph b c"
  shows "static_graph a c"
proof -
  have "grows (nodes (graph a)) (nodes (graph b))" "grows (nodes (graph b)) (nodes (graph c))"
    using assms by (simp_all add: static_graph_def)
  then have "grows (nodes (graph a)) (nodes (graph c))" by (rule grows_trans)
  then show ?thesis using assms by (simp add: static_graph_def)
qed

lemma add_edge_static:
  "location (add_edge u v attr G) = location G \<and> age_group (add_edge u v attr G) = age_group G
   \<and> visit_days (add_edge u v attr G) = visit_days G"
  by (simp add: add_edge_def add_node_def Let_def)

lemma add_new_interaction_edge_static: "static_graph GO (add_new_interaction_edge pair GO)"
  by (simp add: add_new_interaction_edge_def static_graph_def add_edge_static add_edge_grows
      grows_refl)

lemma fold_add_new_interaction_edge_static:
  "static_graph GO (fold add_new_interaction_edge ps GO)"
proof (induction ps arbitrary: GO)
  case Nil
  show ?case by (simp add: static_graph_refl)
next
  case (Cons p ps)
  show ?case
    using static_graph_trans [OF add_new_interaction_edge_static Cons.IH] by simp
qed

lemma set_group_interaction_edges_static:
  assumes "set_group_interaction_edges behaviour node others group_size (GO, g) = Inr (GO', g')"
  shows "static_graph GO GO'"
  using assms fold_add_new_interaction_edge_static
  by (auto simp: set_group_interaction_edges_def bind_err_Inr_iff Let_def split: if_splits)

lemma remove_edge_static:
  assumes "remove_edge u v G = Inr G'"
  shows "location G' = location G \<and> age_group G' = age_group G \<and> visit_days G' = visit_days G
     \<and> nodes G' = nodes G"
  using assms by (auto simp: remove_edge_def Let_def split: if_splits)

lemma remove_if_interaction_static:
  assumes "remove_if_interaction u v G = Inr G'"
  shows "location G' = location G \<and> age_group G' = age_group G \<and> visit_days G' = visit_days G
     \<and> nodes G' = nodes G"
  using assms remove_edge_static
  by (auto simp: remove_if_interaction_def split: option.splits if_splits)

lemma for_edges_remove_static:
  assumes "for_edges remove_if_interaction ns seen G = Inr G'"
  shows "location G' = location G \<and> age_group G' = age_group G \<and> visit_days G' = visit_days G
     \<and> nodes G' = nodes G"
  by (rule for_edges_inv [where P = "\<lambda>X. location X = location G \<and> age_group X = age_group G \<and>
        visit_days X = visit_days G \<and> nodes X = nodes G", OF assms])
     (auto dest: remove_if_interaction_static)

lemma remove_group_interaction_edges_static:
  assumes "remove_group_interaction_edges GO = Inr GO'"
  shows "static_graph GO GO' \<and> nodes (graph GO') = nodes (graph GO)
     \<and> visit_days (graph GO') = visit_days (graph GO)"
  using assms for_edges_remove_static
  by (fastforce simp: remove_group_interaction_edges_def bind_err_Inr_iff static_graph_def
      grows_refl)


definition state_at :: "(nat \<Rightarrow> (nat \<times> state) list option) \<Rightarrow> nat \<Rightarrow> nat \<Rightarrow> state option" where
  "state_at sd t n = (case sd t of None \<Rightarrow> None | Some d \<Rightarrow> map_of d n)"

definition write_to :: "nat \<times> nat \<times> state \<Rightarrow> (nat \<Rightarrow> (nat \<times> state) list option) \<Rightarrow>
    (nat \<Rightarrow> (nat \<times> state) list option)" where
  "write_to w sd = (case w of (t, n, s) \<Rightarrow>
     (case sd t of None \<Rightarrow> sd | Some d \<Rightarrow> sd(t \<mapsto> AList.update n s d)))"

lemma get_state_state_at:
  "get_state m t n = (case state_at (states_dict m) t n of None \<Rightarrow> Inl KeyError | Some s \<Rightarrow> Inr s)"
  by (simp add: get_state_def state_at_def split: option.splits)

lemma get_state_Inr_iff: "(get_state m t n = Inr s) = (state_at (states_dict m) t n = Some s)"
  by (simp add: get_state_state_at split: option.splits)

lemma state_at_write_to:
  "state_at (write_to (t, n, s) sd) t' n' =
     (if sd t \<noteq> None \<and> t' = t \<and> n' = n then Some s else state_at sd t' n')"
  by (auto simp: state_at_def write_to_def update_conv' split: option.splits)

lemma dom_write_to: "(write_to w sd t = None) = (sd t = None)"
  by (cases w) (auto simp: write_to_def split: option.splits)

lemma dom_fold_write_to: "(fold write_to ws sd t = None) = (sd t = None)"
  by (induction ws arbitrary: sd) (auto simp: dom_write_to)

lemma state_at_fold_other:
  "\<forall>w \<in> set ws. fst w \<noteq> t \<Longrightarrow> state_at (fold write_to ws sd) t n = state_at sd t n"
proof (induction ws arbitrary: sd)
  case Nil
  show ?case by simp
next
  case (Cons w ws)
  obtain t' n' s' where w: "w = (t', n', s')" by (cases w) auto
  with Cons.prems have "t' \<noteq> t" by auto
  then have "state_at (write_to w sd) t n = state_at sd t n"
    by (simp add: w state_at_write_to)
  with Cons show ?case by simp
qed

lemma set_state_Inr:
  assumes "set_state t n s m = Inr m'"
  shows "m' = m\<lparr>states_dict := write_to (t, n, s) (states_dict m), writes := writes m @ [(t, n, s)]\<rparr>
     \<and> states_dict m t \<noteq> None"
  using assms by (auto simp: set_state_def write_to_def split: option.splits)

lemma set_visit_days_Inr:
  assumes "set_visit_days node b m = Inr m'"
  shows "states_dict m' = states_dict m \<and> writes m' = writes m \<and> draws m' = draws m \<and>
     params m' = params m \<and> curr_time m' = curr_time m \<and>
     static_graph (graph_obj m) (graph_obj m') \<and>
     nodes (graph (graph_obj m')) = nodes (graph (graph_obj m)) \<and>
     adj (graph (graph_obj m')) = adj (graph (graph_obj m))"
  using assms
  by (cases b)
     (auto simp: set_visit_days_def bind_err_Inr_iff Let_def static_graph_def grows_refl)

lemma do_interaction_Inr:
  assumes "do_interaction node weekday others b m = Inr m'"
  shows "states_dict m' = states_dict m \<and> writes m' = writes m \<and> draws m' = draws m \<and>
     params m' = params m \<and> curr_time m' = curr_time m \<and>
     static_graph (graph_obj m) (graph_obj m')"
  using assms set_group_interaction_edges_static
  by (cases b)
     (auto simp: do_interaction_def bind_err_Inr_iff static_graph_refl
           split: option.splits if_splits)

definition quiet :: "Model \<Rightarrow> Model \<Rightarrow> bool" where
  "quiet m m' \<longleftrightarrow> states_dict m' = states_dict m \<and> writes m' = writes m \<and> draws m' = draws m \<and>
     params m' = params m \<and> curr_time m' = curr_time m \<and>
     static_graph (graph_obj m) (graph_obj m')"

lemma quiet_refl: "quiet m m"
  by (simp add: quiet_def static_graph_refl)

lemma quiet_trans:
  assumes "quiet a b" and "quiet b c"
  shows "quiet a c"
proof -
  have "static_graph (graph_obj a) (graph_obj b)" "static_graph (graph_obj b) (graph_obj c)"
    using assms by (simp_all add: quiet_def)
  then have "static_graph (graph_obj a) (graph_obj c)" by (rule static_graph_trans)
  then show ?thesis using assms by (simp add: quiet_def)
qed

lemma set_visit_days_quiet: "set_visit_days node b m = Inr m' \<Longrightarrow> quiet m m'"
  by (simp add: quiet_def set_visit_days_Inr)

lemma do_interaction_quiet: "do_interaction node weekday others b m = Inr m' \<Longrightarrow> quiet m m'"
  by (simp add: quiet_def do_interaction_Inr)

lemma add_interactions_quiet:
  assumes "add_interactions node m = Inr m'"
  shows "quiet m m'"
proof -
  from assms obtain m1 where
    m1: "(if curr_time m mod 7 = 0
          then fold_err (set_visit_days node) (behaviours_dict (params m)) m else Inr m) = Inr m1"
    and m': "fold_err (do_interaction node (curr_time m mod 7)
               (filter (\<lambda>other_node. other_node \<noteq> node) (nodes (graph (graph_obj m)))))
             (behaviours_dict (params m1)) m1 = Inr m'"
    by (auto simp: add_interactions_def bind_err_Inr_iff Let_def)
  have "quiet m m1"
  proof (cases "curr_time m mod 7 = 0")
    case True
    with m1 have "fold_err (set_visit_days node) (behaviours_dict (params m)) m = Inr m1" by simp
    then show ?thesis
    proof (rule fold_err_rel)
      show "quiet a a" for a by (rule quiet_refl)
      show "quiet a c" if "quiet a b" "quiet b c" for a b c using that by (rule quiet_trans)
      show "quiet a b" if "set_visit_days node x a = Inr b" for x a b
        using that by (rule set_visit_days_quiet)
    qed
  next
    case False
    with m1 show ?thesis by (simp add: quiet_refl)
  qed
  moreover have "quiet m1 m'"
    using m'
  proof (rule fold_err_rel)
    show "quiet a a" for a by (rule quiet_refl)
    show "quiet a c" if "quiet a b" "quiet b c" for a b c using that by (rule quiet_trans)
    show "quiet a b"
      if "do_interaction node (curr_time m mod 7)
            (filter (\<lambda>other_node. other_node \<noteq> node) (nodes (graph (graph_obj m)))) x a = Inr b"
      for x a b
      using that by (rule do_interaction_quiet)
  qed
  ultimately show ?thesis by (rule quiet_trans)
qed

lemma add_interactions_pass_quiet:
  assumes "fold_err add_interactions ns m = Inr m'"
  shows "quiet m m'"
  using assms
proof (rule fold_err_rel)
  show "quiet a a" for a by (rule quiet_refl)
  show "quiet a c" if "quiet a b" "quiet b c" for a b c using that by (rule quiet_trans)
  show "quiet a b" if "add_interactions x a = Inr b" for x a b
    using that by (rule add_interactions_quiet)
qed

lemma remove_interactions_quiet:
  assumes "remove_interactions m = Inr m'"
  shows "quiet m m' \<and> nodes (graph (graph_obj m')) = nodes (graph (graph_obj m))"
  using assms remove_group_interaction_edges_static
  by (fastforce simp: remove_interactions_def bind_err_Inr_iff quiet_def)


lemma do_progression_Inr:
  assumes "do_progression node m = Inr m'"
  shows "\<exists>st v g. state_at (states_dict m) (curr_time m) node = Some st \<and>
     (st \<in> {R, D, S} \<longrightarrow> v = st) \<and>
     m' = m\<lparr>random_state := g,
            states_dict := write_to (curr_time m + 1, node, v) (states_dict m),
            writes := writes m @ [(curr_time m + 1, node, v)]\<rparr> \<and>
     states_dict m (curr_time m + 1) \<noteq> None"
proof -
  from assms obtain st where st: "get_state m (curr_time m) node = Inr st"
    by (auto simp: do_progression_def Let_def bind_err_Inr_iff)
  then have sa: "state_at (states_dict m) (curr_time m) node = Some st"
    by (simp add: get_state_Inr_iff)
  from assms st obtain grp where grp: "age_group (graph (graph_obj m)) node = Some grp"
    by (auto simp: do_progression_def Let_def bind_err_def split: option.splits)
  show ?thesis
  proof (cases "st \<in> {R, D, S}")
    case True
    with assms st grp have "set_state (curr_time m + 1) node st m = Inr m'"
      by (auto simp: do_progression_def Let_def bind_err_def)
    from set_state_Inr [OF this] sa True show ?thesis
      by (intro exI [of _ st] exI [of _ "random_state m"]) simp
  next
    case False
    with assms st grp obtain distr v g where
      "set_state (curr_time m + 1) node v (m\<lparr>random_state := g\<rparr>) = Inr m'"
      by (auto simp: do_progression_def Let_def bind_err_def split: option.splits sum.splits)
    from set_state_Inr [OF this] sa False show ?thesis
      by (intro exI [of _ st] exI [of _ v] exI [of _ g]) simp
  qed
qed

lemma progression_pass:
  assumes "fold_err do_progression ns m = Inr m'"
  shows "graph_obj m' = graph_obj m \<and> params m' = params m \<and> curr_time m' = curr_time m \<and>
    draws m' = draws m \<and>
    (\<exists>ws. writes m' = writes m @ ws \<and> states_dict m' = fold write_to ws (states_dict m) \<and>
       map (\<lambda>w. (fst w, fst (snd w))) ws = map (\<lambda>n. (curr_time m + 1, n)) ns \<and>
       (\<forall>w \<in> set ws. \<forall>st. state_at (states_dict m) (curr_time m) (fst (snd w)) = Some st \<longrightarrow>
            st \<in> {R, D, S} \<longrightarrow> snd (snd w) = st)) \<and>
    (\<forall>n \<in> set ns. state_at (states_dict m) (curr_time m) n \<noteq> None) \<and>
    (ns \<noteq> [] \<longrightarrow> states_dict m (curr_time m + 1) \<noteq> None)"
  using assms
proof (induction ns arbitrary: m)
  case Nil
  then show ?case by simp
next
  case (Cons n ns)
  from Cons.prems obtain m1 where m1: "do_progression n m = Inr m1"
    and rest: "fold_err do_progression ns m1 = Inr m'"
    by (auto split: sum.splits)
  from do_progression_Inr [OF m1] obtain st v g where
    st: "state_at (states_dict m) (curr_time m) n = Some st"
    and v: "st \<in> {R, D, S} \<longrightarrow> v = st"
    and m1_eq: "m1 = m\<lparr>random_state := g,
            states_dict := write_to (curr_time m + 1, n, v) (states_dict m),
            writes := writes m @ [(curr_time m + 1, n, v)]\<rparr>"
    and alloc: "states_dict m (curr_time m + 1) \<noteq> None"
    by blast
  have same: "state_at (states_dict m1) (curr_time m) x = state_at (states_dict m) (curr_time m) x"
    for x by (simp add: m1_eq state_at_write_to)
  have ct: "curr_time m1 = curr_time m" by (simp add: m1_eq)
  from Cons.IH [OF rest] obtain ws where
    frame: "graph_obj m' = graph_obj m1" "params m' = params m1" "curr_time m' = curr_time m1"
      "draws m' = draws m1"
    and ws: "writes m' = writes m1 @ ws" "states_dict m' = fold write_to ws (states_dict m1)"
      "map (\<lambda>w. (fst w, fst (snd w))) ws = map (\<lambda>n. (curr_time m1 + 1, n)) ns"
      "\<forall>w \<in> set ws. \<forall>st. state_at (states_dict m1) (curr_time m1) (fst (snd w)) = Some st \<longrightarrow>
            st \<in> {R, D, S} \<longrightarrow> snd (snd w) = st"
    and keys: "\<forall>n \<in> set ns. state_at (states_dict m1) (curr_time m1) n \<noteq> None"
    by blast
  let ?ws = "(curr_time m + 1, n, v) # ws"
  have "writes m' = writes m @ ?ws" using ws(1) by (simp add: m1_eq)
  moreover have "states_dict m' = fold write_to ?ws (states_dict m)"
    using ws(2) by (simp add: m1_eq)
  moreover have "map (\<lambda>w. (fst w, fst (snd w))) ?ws = map (\<lambda>n. (curr_time m + 1, n)) (n # ns)"
    using ws(3) by (simp add: ct)
  moreover have "\<forall>w \<in> set ?ws. \<forall>st. state_at (states_dict m) (curr_time m) (fst (snd w)) = Some st \<longrightarrow>
            st \<in> {R, D, S} \<longrightarrow> snd (snd w) = st"
    using ws(4) v st by (auto simp: ct same)
  moreover have "\<forall>x \<in> set (n # ns). state_at (states_dict m) (curr_time m) x \<noteq> None"
    using keys st by (auto simp: ct same)
  ultimately show ?case using frame alloc by (auto simp: m1_eq)
qed


definition infects :: "nat \<times> nat \<times> nat \<times> rat \<times> rat \<Rightarrow> bool" where
  "infects e = (case e of (t, v, u, luck, prob) \<Rightarrow> luck \<le> prob)"

definition exposure_writes :: "(nat \<times> nat \<times> nat \<times> rat \<times> rat) list \<Rightarrow> (nat \<times> nat \<times> state) list" where
  "exposure_writes ds = map (\<lambda>e. (fst e + 1, fst (snd (snd e)), E)) (filter infects ds)"

definition draw_ok :: "Model \<Rightarrow> nat \<times> nat \<times> nat \<times> rat \<times> rat \<Rightarrow> bool" where
  "draw_ok m e = (case e of (t, v, u, luck, prob) \<Rightarrow>
     t = curr_time m \<and> state_at (states_dict m) t u = Some S \<and>
     (\<exists>d. map_of (adj (graph (graph_obj m)) v) u = Some d \<and> weight d = Some prob))"

definition inf_rel :: "(nat \<Rightarrow> bool) \<Rightarrow> Model \<Rightarrow> Model \<Rightarrow> bool" where
  "inf_rel V m m' \<longleftrightarrow>
     graph_obj m' = graph_obj m \<and> params m' = params m \<and> curr_time m' = curr_time m \<and>
     (\<exists>ds. draws m' = draws m @ ds \<and> writes m' = writes m @ exposure_writes ds \<and>
        states_dict m' = fold write_to (exposure_writes ds) (states_dict m) \<and>
        (\<forall>e \<in> set ds. draw_ok m e \<and> V (fst (snd e))))"

lemma exposure_writes_append [simp]:
  "exposure_writes (xs @ ys) = exposure_writes xs @ exposure_writes ys"
  by (simp add: exposure_writes_def)

lemma exposure_writes_Nil [simp]: "exposure_writes [] = []"
  by (simp add: exposure_writes_def)

lemma exposure_writes_time:
  assumes "\<forall>e \<in> set ds. draw_ok m e"
  shows "\<forall>w \<in> set (exposure_writes ds). fst w \<noteq> curr_time m"
  using assms by (auto simp: exposure_writes_def draw_ok_def)

lemma inf_rel_refl: "inf_rel V m m"
  by (simp add: inf_rel_def)

lemma inf_rel_state_at:
  assumes "inf_rel V a b"
  shows "state_at (states_dict b) (curr_time a) x = state_at (states_dict a) (curr_time a) x"
proof -
  from assms obtain ds where ds: "states_dict b = fold write_to (exposure_writes ds) (states_dict a)"
      "\<forall>e \<in> set ds. draw_ok a e"
    by (auto simp: inf_rel_def)
  from exposure_writes_time [OF ds(2)] show ?thesis
    unfolding ds(1) by (rule state_at_fold_other)
qed

lemma draw_ok_cong:
  assumes "graph_obj b = graph_obj a" "curr_time b = curr_time a"
    and "\<And>x. state_at (states_dict b) (curr_time a) x = state_at (states_dict a) (curr_time a) x"
  shows "draw_ok b e = draw_ok a e"
  using assms by (cases e) (auto simp: draw_ok_def)

lemma inf_rel_trans:
  assumes ab: "inf_rel V a b" and bc: "inf_rel V b c"
  shows "inf_rel V a c"
proof -
  from ab obtain ds1 where 1: "graph_obj b = graph_obj a" "params b = params a"
      "curr_time b = curr_time a" "draws b = draws a @ ds1"
      "writes b = writes a @ exposure_writes ds1"
      "states_dict b = fold write_to (exposure_writes ds1) (states_dict a)"
      "\<forall>e \<in> set ds1. draw_ok a e \<and> V (fst (snd e))"
    by (auto simp: inf_rel_def)
  from bc obtain ds2 where 2: "graph_obj c = graph_obj b" "params c = params b"
      "curr_time c = curr_time b" "draws c = draws b @ ds2"
      "writes c = writes b @ exposure_writes ds2"
      "states_dict c = fold write_to (exposure_writes ds2) (states_dict b)"
      "\<forall>e \<in> set ds2. draw_ok b e \<and> V (fst (snd e))"
    by (auto simp: inf_rel_def)
  have "draw_ok b e = draw_ok a e" for e
    by (rule draw_ok_cong [OF 1(1) 1(3)]) (rule inf_rel_state_at [OF ab])
  with 1(7) 2(7) have "\<forall>e \<in> set (ds1 @ ds2). draw_ok a e \<and> V (fst (snd e))" by auto
  moreover have "draws c = draws a @ (ds1 @ ds2)" using 1(4) 2(4) by simp
  moreover have "writes c = writes a @ exposure_writes (ds1 @ ds2)" using 1(5) 2(5) by simp
  moreover have "states_dict c = fold write_to (exposure_writes (ds1 @ ds2)) (states_dict a)"
    using 1(6) 2(6) by simp
  ultimately show ?thesis
    unfolding inf_rel_def using 1(1,2,3) 2(1,2,3) by (intro conjI exI [of _ "ds1 @ ds2"]) simp_all
qed

lemma inf_rel_mono:
  assumes "inf_rel V a b" and "\<And>v. V v \<Longrightarrow> W v"
  shows "inf_rel W a b"
  using assms unfolding inf_rel_def by blast

lemma infect_neighbours_Inr:
  assumes "infect_neighbours node nb m = Inr m'"
  shows "inf_rel (\<lambda>v. v = node) m m' \<and>
     (state_at (states_dict m) (curr_time m) nb = Some S \<longrightarrow>
        (\<exists>luck prob. draws m' = draws m @ [(curr_time m, node, nb, luck, prob)]))"
proof -
  from assms obtain st where st: "get_state m (curr_time m) nb = Inr st"
    by (auto simp: infect_neighbours_def bind_err_Inr_iff)
  then have sa: "state_at (states_dict m) (curr_time m) nb = Some st"
    by (simp add: get_state_Inr_iff)
  show ?thesis
  proof (cases "st = S")
    case False
    with assms st have "m' = m" by (simp add: infect_neighbours_def bind_err_def)
    with sa False show ?thesis by (simp add: inf_rel_refl)
  next
    case True
    from assms st True obtain d prob where d: "map_of (adj (graph (graph_obj m)) node) nb = Some d"
        "weight d = Some prob"
      by (auto simp: infect_neighbours_def bind_err_def split: option.splits)
    obtain luck g where lg: "random_random (random_state m) = (luck, g)"
      by (cases "random_random (random_state m)") auto
    let ?e = "(curr_time m, node, nb, luck, prob)"
    let ?m1 = "m\<lparr>random_state := g, draws := draws m @ [?e]\<rparr>"
    have ok: "draw_ok m ?e" using sa True d by (simp add: draw_ok_def)
    show ?thesis
    proof (cases "luck \<le> prob")
      case True
      with assms st \<open>st = S\<close> d lg have "set_state (curr_time m + 1) nb E ?m1 = Inr m'"
        by (simp add: infect_neighbours_def bind_err_def Let_def)
      from set_state_Inr [OF this]
      have m': "m' = ?m1\<lparr>states_dict := write_to (curr_time m + 1, nb, E) (states_dict m),
                          writes := writes m @ [(curr_time m + 1, nb, E)]\<rparr>"
        by simp
      have "exposure_writes [?e] = [(curr_time m + 1, nb, E)]"
        using True by (simp add: exposure_writes_def infects_def)
      then have "inf_rel (\<lambda>v. v = node) m m'"
        unfolding inf_rel_def using ok by (intro conjI exI [of _ "[?e]"]) (simp_all add: m')
      then show ?thesis by (simp add: m')
    next
      case False
      with assms st \<open>st = S\<close> d lg have m': "m' = ?m1"
        by (simp add: infect_neighbours_def bind_err_def Let_def)
      have "exposure_writes [?e] = []"
        using False by (simp add: exposure_writes_def infects_def)
      then have "inf_rel (\<lambda>v. v = node) m m'"
        unfolding inf_rel_def using ok by (intro conjI exI [of _ "[?e]"]) (simp_all add: m')
      then show ?thesis by (simp add: m')
    qed
  qed
qed

lemma infect_neighbours_fold:
  assumes "fold_err (infect_neighbours node) nbs m = Inr m'"
  shows "inf_rel (\<lambda>v. v = node) m m'"
  using assms
  by (rule fold_err_rel) (auto dest: infect_neighbours_Inr intro: inf_rel_refl inf_rel_trans)

lemma do_infection_Inr:
  assumes "do_infection node m = Inr m'"
  shows "inf_rel (\<lambda>v. v = node \<and> state_at (states_dict m) (curr_time m) v \<in> {Some I, Some A}) m m'"
proof -
  from assms obtain st where st: "get_state m (curr_time m) node = Inr st"
    by (auto simp: do_infection_def bind_err_Inr_iff)
  then have sa: "state_at (states_dict m) (curr_time m) node = Some st"
    by (simp add: get_state_Inr_iff)
  show ?thesis
  proof (cases "st = I \<or> st = A")
    case True
    with assms st have
      "fold_err (infect_neighbours node) (map fst (adj (graph (graph_obj m)) node)) m = Inr m'"
      by (auto simp: do_infection_def bind_err_def)
    from infect_neighbours_fold [OF this] show ?thesis
      by (rule inf_rel_mono) (use sa True in auto)
  next
    case False
    with assms st have "m' = m" by (auto simp: do_infection_def bind_err_def)
    then show ?thesis by (simp add: inf_rel_refl)
  qed
qed

lemma infection_pass:
  assumes "fold_err do_infection ns m = Inr m'"
  shows "inf_rel (\<lambda>v. v \<in> set ns \<and> state_at (states_dict m) (curr_time m) v \<in> {Some I, Some A}) m m'"
proof (rule fold_err_inv [where P = "inf_rel (\<lambda>v. v \<in> set ns \<and>
          state_at (states_dict m) (curr_time m) v \<in> {Some I, Some A}) m", OF assms])
  show "inf_rel (\<lambda>v. v \<in> set ns \<and> state_at (states_dict m) (curr_time m) v \<in> {Some I, Some A}) m m"
    by (rule inf_rel_refl)
next
  fix x a b
  assume x: "x \<in> set ns"
    and a: "inf_rel (\<lambda>v. v \<in> set ns \<and> state_at (states_dict m) (curr_time m) v \<in> {Some I, Some A}) m a"
    and b: "do_infection x a = Inr b"
  have ct: "curr_time a = curr_time m" using a by (simp add: inf_rel_def)
  have "inf_rel (\<lambda>v. v \<in> set ns \<and> state_at (states_dict m) (curr_time m) v \<in> {Some I, Some A}) a b"
    by (rule inf_rel_mono [OF do_infection_Inr [OF b]])
       (use x inf_rel_state_at [OF a] ct in auto)
  with a show "inf_rel (\<lambda>v. v \<in> set ns \<and> state_at (states_dict m) (curr_time m) v \<in> {Some I, Some A}) m b"
    by (rule inf_rel_trans)
qed

lemma inf_rel_draws:
  assumes "inf_rel V a b"
  shows "\<exists>ds. draws b = draws a @ ds"
  using assms by (auto simp: inf_rel_def)

lemma infect_neighbours_fold_complete:
  assumes "fold_err (infect_neighbours node) nbs m = Inr m'"
  shows "\<exists>ds. draws m' = draws m @ ds \<and>
     (\<forall>u \<in> set nbs. state_at (states_dict m) (curr_time m) u = Some S \<longrightarrow>
        (\<exists>luck prob. (curr_time m, node, u, luck, prob) \<in> set ds))"
  using assms
proof (induction nbs arbitrary: m)
  case Nil
  then show ?case by simp
next
  case (Cons nb nbs)
  from Cons.prems obtain m1 where m1: "infect_neighbours node nb m = Inr m1"
    and rest: "fold_err (infect_neighbours node) nbs m1 = Inr m'"
    by (auto split: sum.splits)
  from infect_neighbours_Inr [OF m1] have rel: "inf_rel (\<lambda>v. v = node) m m1"
    and hit: "state_at (states_dict m) (curr_time m) nb = Some S \<longrightarrow>
        (\<exists>luck prob. draws m1 = draws m @ [(curr_time m, node, nb, luck, prob)])"
    by blast+
  from rel have ct: "curr_time m1 = curr_time m" by (simp add: inf_rel_def)
  from inf_rel_draws [OF rel] obtain ds1 where ds1: "draws m1 = draws m @ ds1" by blast
  from Cons.IH [OF rest] obtain ds2 where ds2: "draws m' = draws m1 @ ds2"
    and all2: "\<forall>u \<in> set nbs. state_at (states_dict m1) (curr_time m1) u = Some S \<longrightarrow>
        (\<exists>luck prob. (curr_time m1, node, u, luck, prob) \<in> set ds2)"
    by blast
  have same: "state_at (states_dict m1) (curr_time m) x = state_at (states_dict m) (curr_time m) x"
    for x by (rule inf_rel_state_at [OF rel])
  have "draws m' = draws m @ (ds1 @ ds2)" using ds1 ds2 by simp
  moreover have "\<forall>u \<in> set (nb # nbs). state_at (states_dict m) (curr_time m) u = Some S \<longrightarrow>
        (\<exists>luck prob. (curr_time m, node, u, luck, prob) \<in> set (ds1 @ ds2))"
  proof (intro ballI impI)
    fix u assume u: "u \<in> set (nb # nbs)"
      and su: "state_at (states_dict m) (curr_time m) u = Some S"
    show "\<exists>luck prob. (curr_time m, node, u, luck, prob) \<in> set (ds1 @ ds2)"
    proof (cases "u = nb")
      case True
      with hit su obtain luck prob where "draws m1 = draws m @ [(curr_time m, node, nb, luck, prob)]"
        by blast
      with ds1 have "ds1 = [(curr_time m, node, nb, luck, prob)]" by simp
      with True show ?thesis by auto
    next
      case False
      with u have "u \<in> set nbs" by simp
      moreover have "state_at (states_dict m1) (curr_time m1) u = Some S"
        using su by (simp add: ct same)
      ultimately obtain luck prob where "(curr_time m1, node, u, luck, prob) \<in> set ds2"
        using all2 by blast
      then show ?thesis by (auto simp: ct)
    qed
  qed
  ultimately show ?case by blast
qed

lemma do_infection_complete:
  assumes "do_infection v m = Inr m'"
  shows "\<exists>ds. draws m' = draws m @ ds \<and>
     (state_at (states_dict m) (curr_time m) v \<in> {Some I, Some A} \<longrightarrow>
       (\<forall>u \<in> fst ` set (adj (graph (graph_obj m)) v).
          state_at (states_dict m) (curr_time m) u = Some S \<longrightarrow>
          (\<exists>luck prob. (curr_time m, v, u, luck, prob) \<in> set ds)))"
proof -
  from assms obtain st where st: "get_state m (curr_time m) v = Inr st"
    by (auto simp: do_infection_def bind_err_Inr_iff)
  then have sa: "state_at (states_dict m) (curr_time m) v = Some st"
    by (simp add: get_state_Inr_iff)
  show ?thesis
  proof (cases "st = I \<or> st = A")
    case True
    with assms st have
      "fold_err (infect_neighbours v) (map fst (adj (graph (graph_obj m)) v)) m = Inr m'"
      by (auto simp: do_infection_def bind_err_def)
    from infect_neighbours_fold_complete [OF this] obtain ds where
      ds: "draws m' = draws m @ ds"
      and al: "\<forall>u \<in> set (map fst (adj (graph (graph_obj m)) v)).
          state_at (states_dict m) (curr_time m) u = Some S \<longrightarrow>
          (\<exists>luck prob. (curr_time m, v, u, luck, prob) \<in> set ds)"
      by blast
    from al have "\<forall>u \<in> fst ` set (adj (graph (graph_obj m)) v).
          state_at (states_dict m) (curr_time m) u = Some S \<longrightarrow>
          (\<exists>luck prob. (curr_time m, v, u, luck, prob) \<in> set ds)"
      by simp
    with ds show ?thesis by blast
  next
    case False
    with assms st have "m' = m" by (auto simp: do_infection_def bind_err_def)
    with sa False show ?thesis by auto
  qed
qed

lemma infection_pass_complete:
  assumes "fold_err do_infection ns m = Inr m'"
  shows "\<exists>ds. draws m' = draws m @ ds \<and>
     (\<forall>v \<in> set ns. state_at (states_dict m) (curr_time m) v \<in> {Some I, Some A} \<longrightarrow>
       (\<forall>u \<in> fst ` set (adj (graph (graph_obj m)) v).
          state_at (states_dict m) (curr_time m) u = Some S \<longrightarrow>
          (\<exists>luck prob. (curr_time m, v, u, luck, prob) \<in> set ds)))"
  using assms
proof (induction ns arbitrary: m)
  case Nil
  then show ?case by simp
next
  case (Cons n ns)
  from Cons.prems obtain m1 where m1: "do_infection n m = Inr m1"
    and rest: "fold_err do_infection ns m1 = Inr m'"
    by (auto split: sum.splits)
  from do_infection_Inr [OF m1] have rel: "inf_rel (\<lambda>v. v = n \<and>
      state_at (states_dict m) (curr_time m) v \<in> {Some I, Some A}) m m1" .
  then have ct: "curr_time m1 = curr_time m" and go: "graph_obj m1 = graph_obj m"
    by (simp_all add: inf_rel_def)
  have same: "state_at (states_dict m1) (curr_time m) x = state_at (states_dict m) (curr_time m) x"
    for x by (rule inf_rel_state_at [OF rel])
  from do_infection_complete [OF m1] obtain ds1 where ds1: "draws m1 = draws m @ ds1"
    and all1: "state_at (states_dict m) (curr_time m) n \<in> {Some I, Some A} \<longrightarrow>
       (\<forall>u \<in> fst ` set (adj (graph (graph_obj m)) n).
          state_at (states_dict m) (curr_time m) u = Some S \<longrightarrow>
          (\<exists>luck prob. (curr_time m, n, u, luck, prob) \<in> set ds1))"
    by blast
  from Cons.IH [OF rest] obtain ds2 where ds2: "draws m' = draws m1 @ ds2"
    and all2: "\<forall>v \<in> set ns. state_at (states_dict m1) (curr_time m1) v \<in> {Some I, Some A} \<longrightarrow>
       (\<forall>u \<in> fst ` set (adj (graph (graph_obj m1)) v).
          state_at (states_dict m1) (curr_time m1) u = Some S \<longrightarrow>
          (\<exists>luck prob. (curr_time m1, v, u, luck, prob) \<in> set ds2))"
    by blast
  have "draws m' = draws m @ (ds1 @ ds2)" using ds1 ds2 by simp
  moreover have "\<forall>v \<in> set (n # ns). state_at (states_dict m) (curr_time m) v \<in> {Some I, Some A} \<longrightarrow>
       (\<forall>u \<in> fst ` set (adj (graph (graph_obj m)) v).
          state_at (states_dict m) (curr_time m) u = Some S \<longrightarrow>
          (\<exists>luck prob. (curr_time m, v, u, luck, prob) \<in> set (ds1 @ ds2)))"
  proof (intro ballI impI)
    fix v u assume v: "v \<in> set (n # ns)"
      and sv: "state_at (states_dict m) (curr_time m) v \<in> {Some I, Some A}"
      and u: "u \<in> fst ` set (adj (graph (graph_obj m)) v)"
      and su: "state_at (states_dict m) (curr_time m) u = Some S"
    show "\<exists>luck prob. (curr_time m, v, u, luck, prob) \<in> set (ds1 @ ds2)"
    proof (cases "v = n")
      case True
      with all1 sv u su obtain luck prob where "(curr_time m, n, u, luck, prob) \<in> set ds1"
        by blast
      with True show ?thesis by auto
    next
      case False
      with v have vin: "v \<in> set ns" by simp
      have "state_at (states_dict m1) (curr_time m1) v \<in> {Some I, Some A}"
        using sv by (simp add: ct same)
      moreover have "u \<in> fst ` set (adj (graph (graph_obj m1)) v)" using u by (simp add: go)
      moreover have "state_at (states_dict m1) (curr_time m1) u = Some S"
        using su by (simp add: ct same)
      ultimately obtain luck prob where "(curr_time m1, v, u, luck, prob) \<in> set ds2"
        using all2 vin by blast
      then show ?thesis by (auto simp: ct)
    qed
  qed
  ultimately show ?case by blast
qed

lemma timestep_passes:
  "timestep time m = bind_err (timestep_passes time m) (\<lambda>(m1, m2, m3, m4). Inr m4)"
  by (simp add: timestep_def timestep_passes_def Let_def bind_err_def split: sum.splits)

lemma timestep_Inr_iff:
  "(timestep time m = Inr m') = (\<exists>m1 m2 m3. timestep_passes time m = Inr (m1, m2, m3, m'))"
  by (auto simp: timestep_passes bind_err_Inr_iff)

lemma new_writes_append: "writes m' = writes m @ ws \<Longrightarrow> new_writes m m' = ws"
  by (simp add: new_writes_def)

lemma new_draws_append: "draws m' = draws m @ ds \<Longrightarrow> new_draws m m' = ds"
  by (simp add: new_draws_def)

lemma state_at_fold_untouched:
  "\<forall>w \<in> set ws. \<not> (fst w = t \<and> fst (snd w) = n) \<Longrightarrow>
     state_at (fold write_to ws sd) t n = state_at sd t n"
proof (induction ws arbitrary: sd)
  case Nil
  show ?case by simp
next
  case (Cons w ws)
  obtain t' n' s' where w: "w = (t', n', s')" by (cases w) auto
  with Cons.prems have "\<not> (t' = t \<and> n' = n)" by auto
  then have "state_at (write_to w sd) t n = state_at sd t n"
    by (auto simp: w state_at_write_to)
  with Cons show ?case by simp
qed

lemma state_at_fold_last:
  assumes "sd t \<noteq> None"
    and "\<exists>w \<in> set ws. fst w = t \<and> fst (snd w) = n"
    and "\<forall>w \<in> set ws. fst w = t \<and> fst (snd w) = n \<longrightarrow> snd (snd w) = s"
  shows "state_at (fold write_to ws sd) t n = Some s"
  using assms(2,3)
proof (induction ws rule: rev_induct)
  case Nil
  then show ?case by simp
next
  case (snoc w ws)
  obtain t' n' s' where w: "w = (t', n', s')" by (cases w) auto
  have alloc: "fold write_to ws sd t \<noteq> None" using assms(1) by (simp add: dom_fold_write_to)
  show ?case
  proof (cases "t' = t \<and> n' = n")
    case True
    with snoc.prems(2) w have "s' = s" by auto
    with True alloc show ?thesis by (simp add: w state_at_write_to)
  next
    case False
    with snoc.prems(1) w have ex: "\<exists>w \<in> set ws. fst w = t \<and> fst (snd w) = n" by auto
    have "state_at (fold write_to ws sd) t n = Some s"
      using snoc.IH [OF ex] snoc.prems(2) by simp
    with False show ?thesis by (auto simp: w state_at_write_to)
  qed
qed

lemma timestep_passes_Inr:
  assumes "timestep_passes k m = Inr (m1, m2, m3, m4)"
  shows "fold_err add_interactions (nodes (graph (graph_obj m))) (m\<lparr>curr_time := k\<rparr>) = Inr m1"
    and "fold_err do_progression (nodes (graph (graph_obj m1))) m1 = Inr m2"
    and "fold_err do_infection (nodes (graph (graph_obj m2))) m2 = Inr m3"
    and "remove_interactions m3 = Inr m4"
  using assms by (auto simp: timestep_passes_def Let_def bind_err_Inr_iff)

lemma timestep_passes_facts:
  assumes run: "timestep_passes k m = Inr (m1, m2, m3, m4)"
  obtains pw ds where
    "quiet (m\<lparr>curr_time := k\<rparr>) m1"
    "graph_obj m2 = graph_obj m1" "graph_obj m3 = graph_obj m1"
    "static_graph (graph_obj m1) (graph_obj m4)"
    "nodes (graph (graph_obj m4)) = nodes (graph (graph_obj m1))"
    "params m4 = params m" "curr_time m4 = k"
    "writes m1 = writes m" "writes m2 = writes m @ pw"
    "writes m3 = writes m2 @ exposure_writes ds" "writes m4 = writes m3"
    "draws m1 = draws m" "draws m2 = draws m" "draws m3 = draws m @ ds" "draws m4 = draws m3"
    "states_dict m1 = states_dict m" "states_dict m2 = fold write_to pw (states_dict m)"
    "states_dict m3 = fold write_to (exposure_writes ds) (states_dict m2)"
    "states_dict m4 = states_dict m3"
    "map (\<lambda>w. (fst w, fst (snd w))) pw = map (\<lambda>n. (k + 1, n)) (nodes (graph (graph_obj m1)))"
    "\<forall>w \<in> set pw. \<forall>st. state_at (states_dict m) k (fst (snd w)) = Some st \<longrightarrow>
        st \<in> {R, D, S} \<longrightarrow> snd (snd w) = st"
    "\<forall>n \<in> set (nodes (graph (graph_obj m1))). state_at (states_dict m) k n \<noteq> None"
    "nodes (graph (graph_obj m1)) \<noteq> [] \<longrightarrow> states_dict m (k + 1) \<noteq> None"
    "\<forall>e \<in> set ds. draw_ok m1 e \<and> fst (snd e) \<in> set (nodes (graph (graph_obj m1))) \<and>
        state_at (states_dict m) k (fst (snd e)) \<in> {Some I, Some A}"
    "\<forall>v \<in> set (nodes (graph (graph_obj m1))).
        state_at (states_dict m) k v \<in> {Some I, Some A} \<longrightarrow>
        (\<forall>u \<in> fst ` set (adj (graph (graph_obj m1)) v).
           state_at (states_dict m) k u = Some S \<longrightarrow>
           (\<exists>luck prob. (k, v, u, luck, prob) \<in> set ds))"
proof -
  note r = timestep_passes_Inr [OF run]
  have q1: "quiet (m\<lparr>curr_time := k\<rparr>) m1"
    using r(1) add_interactions_pass_quiet [of "nodes (graph (graph_obj m))" "m\<lparr>curr_time := k\<rparr>" m1]
    by simp
  then have m1: "states_dict m1 = states_dict m" "writes m1 = writes m" "draws m1 = draws m"
      "params m1 = params m" "curr_time m1 = k"
    by (simp_all add: quiet_def)
  from progression_pass [OF r(2)] obtain pw where
    p: "graph_obj m2 = graph_obj m1" "params m2 = params m1" "curr_time m2 = curr_time m1"
      "draws m2 = draws m1"
      "writes m2 = writes m1 @ pw" "states_dict m2 = fold write_to pw (states_dict m1)"
      "map (\<lambda>w. (fst w, fst (snd w))) pw
         = map (\<lambda>n. (curr_time m1 + 1, n)) (nodes (graph (graph_obj m1)))"
      "\<forall>w \<in> set pw. \<forall>st. state_at (states_dict m1) (curr_time m1) (fst (snd w)) = Some st \<longrightarrow>
            st \<in> {R, D, S} \<longrightarrow> snd (snd w) = st"
      "\<forall>n \<in> set (nodes (graph (graph_obj m1))). state_at (states_dict m1) (curr_time m1) n \<noteq> None"
      "nodes (graph (graph_obj m1)) \<noteq> [] \<longrightarrow> states_dict m1 (curr_time m1 + 1) \<noteq> None"
    by blast
  have pw_time: "\<forall>w \<in> set pw. fst w \<noteq> k"
  proof
    fix w assume "w \<in> set pw"
    then have "(fst w, fst (snd w)) \<in> set (map (\<lambda>w. (fst w, fst (snd w))) pw)" by force
    then show "fst w \<noteq> k" unfolding p(7) by (auto simp: m1)
  qed
  have same2: "state_at (states_dict m2) k x = state_at (states_dict m) k x" for x
    unfolding p(6) m1(1) using pw_time by (rule state_at_fold_other)
  have ok2: "draw_ok m2 e = draw_ok m1 e" for e
    by (rule draw_ok_cong [OF p(1) p(3)]) (simp add: m1 same2)
  have i: "inf_rel (\<lambda>v. v \<in> set (nodes (graph (graph_obj m2))) \<and>
              state_at (states_dict m2) (curr_time m2) v \<in> {Some I, Some A}) m2 m3"
    by (rule infection_pass [OF r(3)])
  then obtain ds where
    d: "graph_obj m3 = graph_obj m2" "params m3 = params m2" "curr_time m3 = curr_time m2"
      "draws m3 = draws m2 @ ds" "writes m3 = writes m2 @ exposure_writes ds"
      "states_dict m3 = fold write_to (exposure_writes ds) (states_dict m2)"
      "\<forall>e \<in> set ds. draw_ok m2 e \<and> (fst (snd e) \<in> set (nodes (graph (graph_obj m2))) \<and>
              state_at (states_dict m2) (curr_time m2) (fst (snd e)) \<in> {Some I, Some A})"
    unfolding inf_rel_def by blast
  from infection_pass_complete [OF r(3)] obtain ds' where
    c: "draws m3 = draws m2 @ ds'"
      "\<forall>v \<in> set (nodes (graph (graph_obj m2))).
         state_at (states_dict m2) (curr_time m2) v \<in> {Some I, Some A} \<longrightarrow>
         (\<forall>u \<in> fst ` set (adj (graph (graph_obj m2)) v).
            state_at (states_dict m2) (curr_time m2) u = Some S \<longrightarrow>
            (\<exists>luck prob. (curr_time m2, v, u, luck, prob) \<in> set ds'))"
    by blast
  from c(1) d(4) have ds': "ds' = ds" by simp
  have ct2: "curr_time m2 = k" using p(3) m1(5) by simp
  from remove_interactions_quiet [OF r(4)] have
    q4: "quiet m3 m4" "nodes (graph (graph_obj m4)) = nodes (graph (graph_obj m3))"
    by simp_all
  show ?thesis
  proof (rule that [of pw ds])
    show "quiet (m\<lparr>curr_time := k\<rparr>) m1" by (rule q1)
    show "graph_obj m2 = graph_obj m1" by (rule p(1))
    show "graph_obj m3 = graph_obj m1" using d(1) p(1) by simp
    show "static_graph (graph_obj m1) (graph_obj m4)" using q4(1) d(1) p(1) by (simp add: quiet_def)
    show "nodes (graph (graph_obj m4)) = nodes (graph (graph_obj m1))" using q4(2) d(1) p(1) by simp
    show "params m4 = params m" using q4(1) d(2) p(2) m1(4) by (simp add: quiet_def)
    show "curr_time m4 = k" using q4(1) d(3) ct2 by (simp add: quiet_def)
    show "writes m1 = writes m" by (rule m1(2))
    show "writes m2 = writes m @ pw" using p(5) m1(2) by simp
    show "writes m3 = writes m2 @ exposure_writes ds" by (rule d(5))
    show "writes m4 = writes m3" using q4(1) by (simp add: quiet_def)
    show "draws m1 = draws m" by (rule m1(3))
    show "draws m2 = draws m" using p(4) m1(3) by simp
    show "draws m3 = draws m @ ds" using d(4) p(4) m1(3) by simp
    show "draws m4 = draws m3" using q4(1) by (simp add: quiet_def)
    show "states_dict m1 = states_dict m" by (rule m1(1))
    show "states_dict m2 = fold write_to pw (states_dict m)" using p(6) m1(1) by simp
    show "states_dict m3 = fold write_to (exposure_writes ds) (states_dict m2)" by (rule d(6))
    show "states_dict m4 = states_dict m3" using q4(1) by (simp add: quiet_def)
    show "map (\<lambda>w. (fst w, fst (snd w))) pw = map (\<lambda>n. (k + 1, n)) (nodes (graph (graph_obj m1)))"
      using p(7) m1(5) by simp
    show "\<forall>w \<in> set pw. \<forall>st. state_at (states_dict m) k (fst (snd w)) = Some st \<longrightarrow>
        st \<in> {R, D, S} \<longrightarrow> snd (snd w) = st"
      using p(8) m1(1,5) by simp
    show "\<forall>n \<in> set (nodes (graph (graph_obj m1))). state_at (states_dict m) k n \<noteq> None"
      using p(9) m1(1,5) by simp
    show "nodes (graph (graph_obj m1)) \<noteq> [] \<longrightarrow> states_dict m (k + 1) \<noteq> None"
      using p(10) m1(1,5) by simp
    show "\<forall>e \<in> set ds. draw_ok m1 e \<and> fst (snd e) \<in> set (nodes (graph (graph_obj m1))) \<and>
        state_at (states_dict m) k (fst (snd e)) \<in> {Some I, Some A}"
      using d(7) by (simp add: ok2 p(1) ct2 same2)
    show "\<forall>v \<in> set (nodes (graph (graph_obj m1))).
        state_at (states_dict m) k v \<in> {Some I, Some A} \<longrightarrow>
        (\<forall>u \<in> fst ` set (adj (graph (graph_obj m1)) v).
           state_at (states_dict m) k u = Some S \<longrightarrow>
           (\<exists>luck prob. (k, v, u, luck, prob) \<in> set ds))"
      using c(2) by (simp add: ds' p(1) ct2 same2)
  qed
qed

lemma fold_err_upt_inv:
  assumes "fold_err f [0..<n] s = Inr s'"
    and "P 0 s"
    and "\<And>k a b. k < n \<Longrightarrow> P k a \<Longrightarrow> f k a = Inr b \<Longrightarrow> P (Suc k) b"
  shows "P n s'"
  using assms
proof (induction n arbitrary: s')
  case 0
  then show ?case by simp
next
  case (Suc n)
  from Suc.prems(1) obtain a where a: "fold_err f [0..<n] s = Inr a" and b: "f n a = Inr s'"
    by (auto simp: fold_err_append bind_err_Inr_iff split: sum.splits) (metis sum.exhaust)
  have "P n a"
  proof (rule Suc.IH [OF a Suc.prems(2)])
    fix k x y assume "k < n" "P k x" "f k x = Inr y"
    then show "P (Suc k) y" using Suc.prems(3) [of k x y] by simp
  qed
  then show ?case using Suc.prems(3) [of n a s'] b by simp
qed

lemma randbelow_less: "0 < n \<Longrightarrow> fst (randbelow n g) < n"
  by (simp add: randbelow_def split: prod.splits) (simp add: nat_less_iff)

lemma set_butlast_update_last: "set (butlast (pool[j := last pool])) \<subseteq> set pool"
proof (cases "pool = []")
  case True
  then show ?thesis by simp
next
  case False
  have "set (butlast (pool[j := last pool])) \<subseteq> set (pool[j := last pool])"
    by (auto dest: in_set_butlastD)
  also have "\<dots> \<subseteq> insert (last pool) (set pool)" by (rule set_update_subset_insert)
  also have "\<dots> = set pool" using False by auto
  finally show ?thesis .
qed

lemma sample_loop_subset:
  "k \<le> length pool \<Longrightarrow> set (fst (sample_loop k pool g)) \<subseteq> set pool"
proof (induction k arbitrary: pool g)
  case 0
  then show ?case by simp
next
  case (Suc k)
  obtain j g' where jg: "randbelow (length pool) g = (j, g')" by (cases "randbelow (length pool) g")
  obtain rest g'' where rg: "sample_loop k (butlast (pool[j := last pool])) g' = (rest, g'')"
    by (cases "sample_loop k (butlast (pool[j := last pool])) g'")
  from Suc.prems have pos: "0 < length pool" by (cases pool) auto
  with randbelow_less [of "length pool" g] jg have j: "j < length pool" by simp
  have "k \<le> length (butlast (pool[j := last pool]))" using Suc.prems by simp
  from Suc.IH [OF this, of g'] rg have "set rest \<subseteq> set (butlast (pool[j := last pool]))" by simp
  with set_butlast_update_last [of pool j] have "set rest \<subseteq> set pool" by blast
  with j show ?case by (simp add: jg rg)
qed

lemma random_sample_subset:
  assumes "random_sample population k g = Inr (xs, g')"
  shows "set xs \<subseteq> set population"
proof -
  from assms have k: "0 \<le> k" "k \<le> int (length population)"
    and eq: "sample_loop (nat k) population g = (xs, g')"
    by (auto simp: random_sample_def split: if_splits)
  from k have "nat k \<le> length population" by simp
  from sample_loop_subset [OF this, of g] eq show ?thesis by simp
qed

lemma fold_set_state:
  assumes "fold_err (\<lambda>x. set_state t x s) xs m = Inr m'"
  shows "m' = m\<lparr>states_dict := fold write_to (map (\<lambda>x. (t, x, s)) xs) (states_dict m),
                 writes := writes m @ map (\<lambda>x. (t, x, s)) xs\<rparr>"
  using assms
proof (induction xs arbitrary: m)
  case Nil
  then show ?case by simp
next
  case (Cons x xs)
  from Cons.prems obtain m1 where m1: "set_state t x s m = Inr m1"
    and rest: "fold_err (\<lambda>x. set_state t x s) xs m1 = Inr m'"
    by (auto split: sum.splits)
  from set_state_Inr [OF m1] Cons.IH [OF rest] show ?case by simp
qed

lemma state_at_fold_None_iff:
  "(state_at (fold write_to ws sd) t n \<noteq> None) =
     (state_at sd t n \<noteq> None \<or> (sd t \<noteq> None \<and> (\<exists>w \<in> set ws. fst w = t \<and> fst (snd w) = n)))"
proof (induction ws arbitrary: sd)
  case Nil
  show ?case by simp
next
  case (Cons w ws)
  obtain t' n' s' where w: "w = (t', n', s')" by (cases w) auto
  show ?case
    unfolding fold_simps Cons.IH
    by (auto simp: w state_at_write_to dom_write_to split: if_splits)
qed

definition distinct_keys :: "(nat \<Rightarrow> (nat \<times> state) list option) \<Rightarrow> bool" where
  "distinct_keys sd \<longleftrightarrow> (\<forall>t d. sd t = Some d \<longrightarrow> distinct (map fst d))"

lemma distinct_keys_write_to: "distinct_keys sd \<Longrightarrow> distinct_keys (write_to w sd)"
  by (cases w) (auto simp: distinct_keys_def write_to_def distinct_update split: option.splits)

lemma distinct_keys_fold: "distinct_keys sd \<Longrightarrow> distinct_keys (fold write_to ws sd)"
  by (induction ws arbitrary: sd) (simp_all add: distinct_keys_write_to)

lemma sum_list_count_STATES: "sum_list (map (count_list xs) STATES) = length xs"
proof (induction xs)
  case Nil
  show ?case by (simp add: STATES_def)
next
  case (Cons x xs)
  then show ?case by (cases x) (simp_all add: STATES_def)
qed

definition run_inv :: "nat \<Rightarrow> nat list \<Rightarrow> nat \<Rightarrow> Model \<Rightarrow> bool" where
  "run_inv T ns k m \<longleftrightarrow>
     time_horizon (graph_obj m) = T \<and> nodes (graph (graph_obj m)) = ns \<and>
     (\<forall>t. (states_dict m t \<noteq> None) = (t \<le> T)) \<and>
     distinct_keys (states_dict m) \<and>
     (\<forall>t n. (state_at (states_dict m) t n \<noteq> None) = (t \<le> k \<and> n \<in> set ns))"

lemma make_states_dict_inv:
  assumes mk: "make_states_dict m = Inr m1"
    and seed: "fold_err (\<lambda>vertex. set_state 0 vertex I) infected m1 = Inr m2"
    and sub: "set infected \<subseteq> set (nodes (graph (graph_obj m)))"
  shows "run_inv (time_horizon (graph_obj m)) (nodes (graph (graph_obj m))) 0 m2"
proof -
  let ?T = "time_horizon (graph_obj m)"
  let ?ns = "nodes (graph (graph_obj m))"
  let ?sd0 = "(\<lambda>timestep. if timestep < ?T + 1 then Some [] else None) :: nat \<Rightarrow> (nat \<times> state) list option"
  let ?w1 = "map (\<lambda>x. (0::nat, x, S)) ?ns"
  let ?w2 = "map (\<lambda>x. (0::nat, x, I)) infected"
  from mk have "fold_err (\<lambda>guy. set_state 0 guy S) ?ns (m\<lparr>states_dict := ?sd0\<rparr>) = Inr m1"
    by (simp add: make_states_dict_def)
  from fold_set_state [OF this] have m1: "m1 = m\<lparr>states_dict := fold write_to ?w1 ?sd0,
        writes := writes m @ ?w1\<rparr>"
    by simp
  from fold_set_state [OF seed] have m2: "m2 = m1\<lparr>states_dict := fold write_to ?w2 (states_dict m1),
        writes := writes m1 @ ?w2\<rparr>" .
  have sd: "states_dict m2 = fold write_to (?w1 @ ?w2) ?sd0"
    by (simp add: m1 m2)
  have go: "graph_obj m2 = graph_obj m" by (simp add: m1 m2)
  have dom: "(states_dict m2 t \<noteq> None) = (t \<le> ?T)" for t
    unfolding sd by (simp add: dom_fold_write_to del: fold_append)
  have "distinct_keys ?sd0" by (simp add: distinct_keys_def)
  then have dk: "distinct_keys (states_dict m2)"
    unfolding sd by (rule distinct_keys_fold)
  have empty: "state_at ?sd0 t n = None" for t n by (simp add: state_at_def)
  have targets: "(\<exists>w \<in> set (?w1 @ ?w2). fst w = t \<and> fst (snd w) = n) = (t = 0 \<and> n \<in> set ?ns)"
    for t n
  proof
    assume "\<exists>w \<in> set (?w1 @ ?w2). fst w = t \<and> fst (snd w) = n"
    then show "t = 0 \<and> n \<in> set ?ns" using sub by auto
  next
    assume "t = 0 \<and> n \<in> set ?ns"
    then have "(0, n, S) \<in> set (?w1 @ ?w2)" "t = 0" by auto
    then show "\<exists>w \<in> set (?w1 @ ?w2). fst w = t \<and> fst (snd w) = n" by force
  qed
  have keys: "(state_at (states_dict m2) t n \<noteq> None) = (t \<le> 0 \<and> n \<in> set ?ns)" for t n
    unfolding sd state_at_fold_None_iff empty targets by auto
  show ?thesis
    unfolding run_inv_def using dom dk keys by (simp add: go)
qed

lemma timestep_inv:
  assumes inv: "run_inv T ns k m" and k: "k < T"
    and run: "timestep_passes k m = Inr (m1, m2, m3, m4)"
  shows "run_inv T ns (Suc k) m4 \<and> nodes (graph (graph_obj m1)) = ns"
proof -
  from run obtain pw ds where
    f: "quiet (m\<lparr>curr_time := k\<rparr>) m1"
      "static_graph (graph_obj m1) (graph_obj m4)"
      "nodes (graph (graph_obj m4)) = nodes (graph (graph_obj m1))"
      "states_dict m2 = fold write_to pw (states_dict m)"
      "states_dict m3 = fold write_to (exposure_writes ds) (states_dict m2)"
      "states_dict m4 = states_dict m3"
      "map (\<lambda>w. (fst w, fst (snd w))) pw = map (\<lambda>n. (k + 1, n)) (nodes (graph (graph_obj m1)))"
      "\<forall>n \<in> set (nodes (graph (graph_obj m1))). state_at (states_dict m) k n \<noteq> None"
      "\<forall>e \<in> set ds. draw_ok m1 e \<and> fst (snd e) \<in> set (nodes (graph (graph_obj m1))) \<and>
        state_at (states_dict m) k (fst (snd e)) \<in> {Some I, Some A}"
      "states_dict m1 = states_dict m"
    by (rule timestep_passes_facts)
  from inv have i: "time_horizon (graph_obj m) = T" "nodes (graph (graph_obj m)) = ns"
      "\<And>t. (states_dict m t \<noteq> None) = (t \<le> T)" "distinct_keys (states_dict m)"
      "\<And>t n. (state_at (states_dict m) t n \<noteq> None) = (t \<le> k \<and> n \<in> set ns)"
    by (simp_all add: run_inv_def)
  from f(1) have sg1: "static_graph (graph_obj m) (graph_obj m1)" and ct1: "curr_time m1 = k"
    by (simp_all add: quiet_def)
  from sg1 have "grows ns (nodes (graph (graph_obj m1)))" by (simp add: static_graph_def i(2))
  moreover have "set (nodes (graph (graph_obj m1))) \<subseteq> set ns"
    using f(8) i(5) by auto
  ultimately have ns1: "nodes (graph (graph_obj m1)) = ns" by (rule grows_subset)
  have th: "time_horizon (graph_obj m4) = T"
    using sg1 f(2) i(1) by (simp add: static_graph_def)
  have sd4: "states_dict m4 = fold write_to (pw @ exposure_writes ds) (states_dict m)"
    by (simp add: f(4,5,6))
  have dom: "(states_dict m4 t \<noteq> None) = (t \<le> T)" for t
    unfolding sd4 using i(3) [of t] by (simp add: dom_fold_write_to del: fold_append)
  have dk: "distinct_keys (states_dict m4)"
    unfolding sd4 using i(4) by (rule distinct_keys_fold)
  have pw_targets: "(\<exists>w \<in> set pw. fst w = t \<and> fst (snd w) = n) = (t = k + 1 \<and> n \<in> set ns)" for t n
  proof -
    have "(\<exists>w \<in> set pw. fst w = t \<and> fst (snd w) = n)
        = ((t, n) \<in> set (map (\<lambda>w. (fst w, fst (snd w))) pw))"
      by force
    also have "\<dots> = (t = k + 1 \<and> n \<in> set ns)" unfolding f(7) ns1 by auto
    finally show ?thesis .
  qed
  have ew_targets: "t = k + 1 \<and> n \<in> set ns"
    if "w \<in> set (exposure_writes ds)" "fst w = t" "fst (snd w) = n" for w t n
  proof -
    from that(1) obtain e where e: "e \<in> set ds" "w = (fst e + 1, fst (snd (snd e)), E)"
      by (auto simp: exposure_writes_def)
    from f(9) e(1) have ok: "draw_ok m1 e" by simp
    obtain t' v u luck prob where e': "e = (t', v, u, luck, prob)" by (cases e) auto
    from ok have "t' = k" "state_at (states_dict m) k u = Some S"
      by (auto simp: draw_ok_def e' ct1 f(10))
    with i(5) [of k u] have "u \<in> set ns" by simp
    with that(2,3) e(2) e' \<open>t' = k\<close> show ?thesis by simp
  qed
  have alloc: "states_dict m (k + 1) \<noteq> None" using i(3) [of "k + 1"] k by simp
  have keys: "(state_at (states_dict m4) t n \<noteq> None) = (t \<le> Suc k \<and> n \<in> set ns)" for t n
  proof -
    have "(state_at (states_dict m4) t n \<noteq> None) =
        (state_at (states_dict m) t n \<noteq> None \<or>
         (states_dict m t \<noteq> None \<and> (\<exists>w \<in> set (pw @ exposure_writes ds). fst w = t \<and> fst (snd w) = n)))"
      unfolding sd4 by (rule state_at_fold_None_iff)
    also have "\<dots> = (t \<le> Suc k \<and> n \<in> set ns)"
    proof (cases "t = k + 1 \<and> n \<in> set ns")
      case True
      with pw_targets [of t n] alloc show ?thesis by auto
    next
      case False
      with pw_targets [of t n] ew_targets [of _ t n]
      have "\<not> (\<exists>w \<in> set (pw @ exposure_writes ds). fst w = t \<and> fst (snd w) = n)" by auto
      with False i(5) [of t n] show ?thesis by auto
    qed
    finally show ?thesis .
  qed
  show ?thesis
    unfolding run_inv_def using th dom dk keys f(3) ns1 by simp
qed

lemma timestep_run_inv:
  assumes "run_inv T ns k m" "k < T" "timestep k m = Inr m'"
  shows "run_inv T ns (Suc k) m'"
proof -
  from assms(3) obtain m1 m2 m3 where "timestep_passes k m = Inr (m1, m2, m3, m')"
    by (auto simp: timestep_Inr_iff)
  from timestep_inv [OF assms(1,2) this] show ?thesis by simp
qed

lemma basic_simulation_inv:
  assumes "basic_simulation m0 = Inr m"
  shows "run_inv (time_horizon (graph_obj m0)) (nodes (graph (graph_obj m0)))
           (time_horizon (graph_obj m0)) m"
proof -
  let ?T = "time_horizon (graph_obj m0)"
  let ?ns = "nodes (graph (graph_obj m0))"
  from assms obtain infected g' m1 m2 where
    smp: "random_sample ?ns (int (num_infected (graph_obj m0))) (random_state m0) = Inr (infected, g')"
    and mk: "make_states_dict (m0\<lparr>random_state := g'\<rparr>) = Inr m1"
    and seed: "fold_err (\<lambda>vertex. set_state 0 vertex I) infected m1 = Inr m2"
    and loop: "fold_err timestep [0..<time_horizon (graph_obj m2)] m2 = Inr m"
    by (auto simp: basic_simulation_def bind_err_Inr_iff)
  from random_sample_subset [OF smp] have sub: "set infected \<subseteq> set ?ns" .
  from make_states_dict_inv [OF mk seed] sub have inv0: "run_inv ?T ?ns 0 m2" by simp
  then have T2: "time_horizon (graph_obj m2) = ?T" by (simp add: run_inv_def)
  from loop have loop': "fold_err timestep [0..<?T] m2 = Inr m" by (simp add: T2)
  show ?thesis
  proof (rule fold_err_upt_inv [where P = "run_inv ?T ?ns", OF loop' inv0])
    fix k a b assume a: "k < ?T" "run_inv ?T ?ns k a" "timestep k a = Inr b"
    show "run_inv ?T ?ns (Suc k) b" by (rule timestep_run_inv [OF a(2) a(1) a(3)])
  qed
qed

lemma exposure_writes_iff:
  "(w \<in> set (exposure_writes ds)) =
     (\<exists>e \<in> set ds. infects e \<and> w = (fst e + 1, fst (snd (snd e)), E))"
  by (auto simp: exposure_writes_def)

lemma timestep_next_state:
  assumes run: "timestep_passes k m = Inr (m1, m2, m3, m4)"
    and u: "u \<in> set (nodes (graph (graph_obj m1)))"
    and st: "state_at (states_dict m) k u = Some st" "st \<in> {R, D, S}"
  shows "state_at (states_dict m4) (k + 1) u =
     Some (if st = S \<and> (\<exists>e \<in> set (new_draws m m4). fst (snd (snd e)) = u \<and> infects e)
           then E else st)"
proof -
  from run obtain pw ds where
    f: "states_dict m2 = fold write_to pw (states_dict m)"
      "states_dict m3 = fold write_to (exposure_writes ds) (states_dict m2)"
      "states_dict m4 = states_dict m3"
      "map (\<lambda>w. (fst w, fst (snd w))) pw = map (\<lambda>n. (k + 1, n)) (nodes (graph (graph_obj m1)))"
      "\<forall>w \<in> set pw. \<forall>st. state_at (states_dict m) k (fst (snd w)) = Some st \<longrightarrow>
          st \<in> {R, D, S} \<longrightarrow> snd (snd w) = st"
      "nodes (graph (graph_obj m1)) \<noteq> [] \<longrightarrow> states_dict m (k + 1) \<noteq> None"
      "\<forall>e \<in> set ds. draw_ok m1 e \<and> fst (snd e) \<in> set (nodes (graph (graph_obj m1))) \<and>
        state_at (states_dict m) k (fst (snd e)) \<in> {Some I, Some A}"
      "states_dict m1 = states_dict m" "quiet (m\<lparr>curr_time := k\<rparr>) m1"
      "draws m3 = draws m @ ds" "draws m4 = draws m3"
    by (rule timestep_passes_facts)
  have nd: "new_draws m m4 = ds" using f(10,11) by (simp add: new_draws_def)
  have ct1: "curr_time m1 = k" using f(9) by (simp add: quiet_def)
  from u f(6) have alloc: "states_dict m (k + 1) \<noteq> None" by auto
  have "(k + 1, u) \<in> set (map (\<lambda>w. (fst w, fst (snd w))) pw)" unfolding f(4) using u by simp
  then have ex: "\<exists>w \<in> set pw. fst w = k + 1 \<and> fst (snd w) = u" by force
  have all: "\<forall>w \<in> set pw. fst w = k + 1 \<and> fst (snd w) = u \<longrightarrow> snd (snd w) = st"
    using f(5) st by blast
  have after_p: "state_at (states_dict m2) (k + 1) u = Some st"
    unfolding f(1) using alloc ex all by (rule state_at_fold_last)
  have alloc2: "states_dict m2 (k + 1) \<noteq> None"
    unfolding f(1) using alloc by (simp add: dom_fold_write_to)
  have draw: "fst e = k \<and> state_at (states_dict m) k (fst (snd (snd e))) = Some S"
    if "e \<in> set ds" for e
  proof -
    from f(7) that have "draw_ok m1 e" by simp
    then show ?thesis by (cases e) (auto simp: draw_ok_def ct1 f(8))
  qed
  let ?hit = "\<exists>e \<in> set ds. fst (snd (snd e)) = u \<and> infects e"
  have sd4: "states_dict m4 = fold write_to (exposure_writes ds) (states_dict m2)"
    by (simp add: f(2,3))
  show ?thesis
  proof (cases "st = S \<and> ?hit")
    case True
    then obtain e where e: "e \<in> set ds" "fst (snd (snd e)) = u" "infects e" by blast
    with draw [OF e(1)] have "(k + 1, u, E) \<in> set (exposure_writes ds)"
      unfolding exposure_writes_iff by force
    then have ex2: "\<exists>w \<in> set (exposure_writes ds). fst w = k + 1 \<and> fst (snd w) = u" by force
    have all2: "\<forall>w \<in> set (exposure_writes ds). fst w = k + 1 \<and> fst (snd w) = u \<longrightarrow> snd (snd w) = E"
      by (auto simp: exposure_writes_def)
    have "state_at (states_dict m4) (k + 1) u = Some E"
      unfolding sd4 using alloc2 ex2 all2 by (rule state_at_fold_last)
    with True show ?thesis by (simp add: nd)
  next
    case False
    have none: "\<forall>w \<in> set (exposure_writes ds). \<not> (fst w = k + 1 \<and> fst (snd w) = u)"
    proof
      fix w assume "w \<in> set (exposure_writes ds)"
      then obtain e where e: "e \<in> set ds" "infects e" "w = (fst e + 1, fst (snd (snd e)), E)"
        unfolding exposure_writes_iff by blast
      show "\<not> (fst w = k + 1 \<and> fst (snd w) = u)"
      proof
        assume "fst w = k + 1 \<and> fst (snd w) = u"
        with e(3) have tu: "fst (snd (snd e)) = u" by simp
        with draw [OF e(1)] st(1) have "st = S" by simp
        with False e(1,2) tu show False by blast
      qed
    qed
    have "state_at (states_dict m4) (k + 1) u = state_at (states_dict m2) (k + 1) u"
      unfolding sd4 using none by (rule state_at_fold_untouched)
    with after_p False show ?thesis by (auto simp: nd)
  qed
qed

text \<open>
  \<open>draw_lucks n g\<close> is what \<open>n\<close> successive calls of \<^verbatim>\<open>random.random()\<close> return from
  the generator state \<open>g\<close>, with the state they leave.
\<close>

fun draw_lucks :: "nat \<Rightarrow> rng \<Rightarrow> rat list \<times> rng" where
  "draw_lucks 0 g = ([], g)"
| "draw_lucks (Suc n) g =
     (case random_random g of (x, g') \<Rightarrow>
        (case draw_lucks n g' of (xs, g'') \<Rightarrow> (x # xs, g'')))"

lemma draw_lucks_add:
  "draw_lucks (a + b) g =
     (case draw_lucks a g of (xs, g1) \<Rightarrow>
        (case draw_lucks b g1 of (ys, g2) \<Rightarrow> (xs @ ys, g2)))"
  by (induction a arbitrary: g) (auto split: prod.splits)

lemma random_random_range: "0 \<le> fst (random_random g) \<and> fst (random_random g) < 1"
proof -
  obtain r g' where r: "next_raw g = (r, g')" by (cases "next_raw g")
  have "0 \<le> r mod 2 ^ 53" "r mod 2 ^ 53 < 2 ^ 53" by simp_all
  then have "(0::rat) \<le> of_int (r mod 2 ^ 53)" "(of_int (r mod 2 ^ 53) :: rat) < 2 ^ 53"
    by (simp_all add: of_int_less_iff [of "r mod 2 ^ 53" "2 ^ 53", where 'a = rat, simplified])
  then show ?thesis by (simp add: random_random_def r)
qed

lemma draw_lucks_range: "\<forall>x \<in> set (fst (draw_lucks n g)). 0 \<le> x \<and> x < 1"
proof (induction n arbitrary: g)
  case 0
  show ?case by simp
next
  case (Suc n)
  obtain x g' where x: "random_random g = (x, g')" by (cases "random_random g")
  with random_random_range [of g] have "0 \<le> x \<and> x < 1" by simp
  with Suc [of g'] show ?case by (auto simp: x split: prod.splits)
qed

definition rng_rel :: "Model \<Rightarrow> Model \<Rightarrow> bool" where
  "rng_rel m m' \<longleftrightarrow>
     (\<exists>ds. draws m' = draws m @ ds \<and>
        draw_lucks (length ds) (random_state m)
          = (map (\<lambda>e. fst (snd (snd (snd e)))) ds, random_state m'))"

lemma rng_rel_refl: "rng_rel m m"
  by (simp add: rng_rel_def)

lemma rng_rel_trans:
  assumes "rng_rel a b" and "rng_rel b c"
  shows "rng_rel a c"
proof -
  from assms(1) obtain ds1 where 1: "draws b = draws a @ ds1"
      "draw_lucks (length ds1) (random_state a) = (map (\<lambda>e. fst (snd (snd (snd e)))) ds1, random_state b)"
    by (auto simp: rng_rel_def)
  from assms(2) obtain ds2 where 2: "draws c = draws b @ ds2"
      "draw_lucks (length ds2) (random_state b) = (map (\<lambda>e. fst (snd (snd (snd e)))) ds2, random_state c)"
    by (auto simp: rng_rel_def)
  have "draws c = draws a @ (ds1 @ ds2)" using 1(1) 2(1) by simp
  moreover have "draw_lucks (length (ds1 @ ds2)) (random_state a)
      = (map (\<lambda>e. fst (snd (snd (snd e)))) (ds1 @ ds2), random_state c)"
    using 1(2) 2(2) by (simp add: draw_lucks_add)
  ultimately show ?thesis unfolding rng_rel_def by blast
qed

lemma infect_neighbours_rng:
  assumes "infect_neighbours node nb m = Inr m'"
  shows "rng_rel m m'"
proof -
  from assms obtain st where st: "get_state m (curr_time m) nb = Inr st"
    by (auto simp: infect_neighbours_def bind_err_Inr_iff)
  show ?thesis
  proof (cases "st = S")
    case False
    with assms st have "m' = m" by (simp add: infect_neighbours_def bind_err_def)
    then show ?thesis by (simp add: rng_rel_refl)
  next
    case True
    from assms st True obtain d prob where d: "map_of (adj (graph (graph_obj m)) node) nb = Some d"
        "weight d = Some prob"
      by (auto simp: infect_neighbours_def bind_err_def split: option.splits)
    obtain luck g where lg: "random_random (random_state m) = (luck, g)"
      by (cases "random_random (random_state m)") auto
    let ?e = "(curr_time m, node, nb, luck, prob)"
    let ?m1 = "m\<lparr>random_state := g, draws := draws m @ [?e]\<rparr>"
    have "draws m' = draws m @ [?e] \<and> random_state m' = g"
    proof (cases "luck \<le> prob")
      case True
      with assms st \<open>st = S\<close> d lg have "set_state (curr_time m + 1) nb E ?m1 = Inr m'"
        by (simp add: infect_neighbours_def bind_err_def Let_def)
      from set_state_Inr [OF this] show ?thesis by simp
    next
      case False
      with assms st \<open>st = S\<close> d lg have "m' = ?m1"
        by (simp add: infect_neighbours_def bind_err_def Let_def)
      then show ?thesis by simp
    qed
    then show ?thesis
      unfolding rng_rel_def by (intro exI [of _ "[?e]"]) (simp add: lg)
  qed
qed

lemma do_infection_rng:
  assumes "do_infection node m = Inr m'"
  shows "rng_rel m m'"
proof -
  from assms obtain st where st: "get_state m (curr_time m) node = Inr st"
    by (auto simp: do_infection_def bind_err_Inr_iff)
  show ?thesis
  proof (cases "st = I \<or> st = A")
    case True
    with assms st have
      "fold_err (infect_neighbours node) (map fst (adj (graph (graph_obj m)) node)) m = Inr m'"
      by (auto simp: do_infection_def bind_err_def)
    then show ?thesis
    proof (rule fold_err_rel)
      show "rng_rel a a" for a by (rule rng_rel_refl)
      show "rng_rel a c" if "rng_rel a b" "rng_rel b c" for a b c using that by (rule rng_rel_trans)
      show "rng_rel a b" if "infect_neighbours node x a = Inr b" for x a b
        using that by (rule infect_neighbours_rng)
    qed
  next
    case False
    with assms st have "m' = m" by (auto simp: do_infection_def bind_err_def)
    then show ?thesis by (simp add: rng_rel_refl)
  qed
qed

lemma infection_pass_rng:
  assumes "fold_err do_infection ns m = Inr m'"
  shows "rng_rel m m'"
  using assms
proof (rule fold_err_rel)
  show "rng_rel a a" for a by (rule rng_rel_refl)
  show "rng_rel a c" if "rng_rel a b" "rng_rel b c" for a b c using that by (rule rng_rel_trans)
  show "rng_rel a b" if "do_infection x a = Inr b" for x a b
    using that by (rule do_infection_rng)
qed

lemma timestep_passes_rng:
  assumes run: "timestep_passes k m = Inr (m1, m2, m3, m4)"
  shows "draw_lucks (length (new_draws m m4)) (random_state m2)
           = (map (\<lambda>e. fst (snd (snd (snd e)))) (new_draws m m4), random_state m4)"
proof -
  note r = timestep_passes_Inr [OF run]
  from run obtain pw ds where
    f: "draws m2 = draws m" "draws m3 = draws m @ ds" "draws m4 = draws m3"
    by (rule timestep_passes_facts)
  have nd: "new_draws m m4 = ds" using f by (simp add: new_draws_def)
  from infection_pass_rng [OF r(3)] obtain ds' where
    d: "draws m3 = draws m2 @ ds'"
      "draw_lucks (length ds') (random_state m2)
         = (map (\<lambda>e. fst (snd (snd (snd e)))) ds', random_state m3)"
    by (auto simp: rng_rel_def)
  from d(1) f have "ds' = ds" by simp
  moreover from r(4) have "random_state m4 = random_state m3"
    by (auto simp: remove_interactions_def bind_err_Inr_iff)
  ultimately show ?thesis using d(2) by (simp add: nd)
qed

lemma state_at_fold_last_write:
  assumes "sd t \<noteq> None"
    and "filter (\<lambda>w. fst w = t \<and> fst (snd w) = n) ws \<noteq> []"
  shows "state_at (fold write_to ws sd) t n
           = Some (snd (snd (last (filter (\<lambda>w. fst w = t \<and> fst (snd w) = n) ws))))"
  using assms(2)
proof (induction ws rule: rev_induct)
  case Nil
  then show ?case by simp
next
  case (snoc w ws)
  obtain t' n' s' where w: "w = (t', n', s')" by (cases w) auto
  have alloc: "fold write_to ws sd t \<noteq> None" using assms(1) by (simp add: dom_fold_write_to)
  show ?case
  proof (cases "t' = t \<and> n' = n")
    case True
    with alloc show ?thesis by (simp add: w state_at_write_to)
  next
    case False
    with snoc.prems w have "filter (\<lambda>w. fst w = t \<and> fst (snd w) = n) ws \<noteq> []" by auto
    from snoc.IH [OF this] False show ?thesis by (auto simp: w state_at_write_to)
  qed
qed

lemma sample_loop_props:
  assumes "distinct pool" and "k \<le> length pool"
  shows "length (fst (sample_loop k pool g)) = k \<and> distinct (fst (sample_loop k pool g)) \<and>
     set (fst (sample_loop k pool g)) \<subseteq> set pool"
  using assms
proof (induction k arbitrary: pool g)
  case 0
  then show ?case by simp
next
  case (Suc k)
  obtain j g' where jg: "randbelow (length pool) g = (j, g')" by (cases "randbelow (length pool) g")
  let ?pool' = "butlast (pool[j := last pool])"
  obtain rest g'' where rg: "sample_loop k ?pool' g' = (rest, g'')"
    by (cases "sample_loop k ?pool' g'")
  from Suc.prems have pos: "0 < length pool" by (cases pool) auto
  with randbelow_less [of "length pool" g] jg have j: "j < length pool" by simp
  from pos obtain xs l where pool: "pool = xs @ [l]" by (cases pool rule: rev_cases) auto
  with Suc.prems(1) have dx: "distinct xs" "l \<notin> set xs" by simp_all
  have p': "distinct ?pool' \<and> pool ! j \<notin> set ?pool' \<and> set ?pool' \<subseteq> set pool \<and>
      length ?pool' = length xs"
  proof (cases "j = length xs")
    case True
    then have "?pool' = xs" by (simp add: pool)
    with dx True show ?thesis by (auto simp: pool)
  next
    case False
    with j have jx: "j < length xs" by (simp add: pool)
    then have eq: "?pool' = xs[j := l]" by (simp add: pool list_update_append)
    have "distinct (xs[j := l])" using dx by (simp add: distinct_list_update)
    moreover have "set (xs[j := l]) = insert l (set xs - {xs ! j})"
      using dx(1) jx by (rule set_update_distinct)
    moreover have "pool ! j = xs ! j" using jx by (simp add: pool nth_append)
    moreover have "xs ! j \<noteq> l" using jx dx(2) by (metis nth_mem)
    moreover have "xs ! j \<in> set xs" using jx by simp
    ultimately show ?thesis unfolding eq by (auto simp: pool)
  qed
  have "k \<le> length ?pool'" using Suc.prems(2) p' by (simp add: pool)
  from Suc.IH [OF _ this, of g'] p' rg
  have ih: "length rest = k" "distinct rest" "set rest \<subseteq> set ?pool'" by simp_all
  from ih p' j show ?case by (auto simp: jg rg)
qed

lemma random_sample_props:
  assumes "random_sample population k g = Inr (xs, g')" and "distinct population"
  shows "int (length xs) = k \<and> distinct xs \<and> set xs \<subseteq> set population"
proof -
  from assms(1) have k: "0 \<le> k" "k \<le> int (length population)"
    and eq: "sample_loop (nat k) population g = (xs, g')"
    by (auto simp: random_sample_def split: if_splits)
  from k have "nat k \<le> length population" by simp
  from sample_loop_props [OF assms(2) this, of g] eq k(1) show ?thesis by simp
qed

lemma ceil_sqrt_ge: "n \<le> ceil_sqrt n * ceil_sqrt n"
proof (cases "find (\<lambda>r. n \<le> r * r) [0..<Suc n]")
  case None
  then show ?thesis by (simp add: ceil_sqrt_def)
next
  case (Some r)
  then have "n \<le> r * r" by (auto simp: find_Some_iff)
  with Some show ?thesis by (simp add: ceil_sqrt_def)
qed

lemma length_filter_not_in:
  assumes "distinct xs" and "distinct ys" and "set ys \<subseteq> set xs"
  shows "length (filter (\<lambda>a. a \<notin> set ys) xs) = length xs - length ys"
proof -
  have "distinct (filter (\<lambda>a. a \<notin> set ys) xs)" using assms(1) by simp
  then have "length (filter (\<lambda>a. a \<notin> set ys) xs) = card (set (filter (\<lambda>a. a \<notin> set ys) xs))"
    by (rule distinct_card [symmetric])
  also have "set (filter (\<lambda>a. a \<notin> set ys) xs) = set xs - set ys" by auto
  also have "card (set xs - set ys) = card (set xs) - card (set ys)"
    using assms(3) by (simp add: card_Diff_subset)
  also have "\<dots> = length xs - length ys"
    using distinct_card [OF assms(1)] distinct_card [OF assms(2)] by simp
  finally show ?thesis .
qed

lemma index_of_less: "x \<in> set xs \<Longrightarrow> index_of xs x < length xs"
  unfolding index_of_def by (induction xs) auto

lemma nth_index_of: "x \<in> set xs \<Longrightarrow> xs ! index_of xs x = x"
  unfolding index_of_def by (induction xs) auto

lemma add_edge_nodes_same:
  "u \<in> set (nodes G) \<Longrightarrow> v \<in> set (nodes G) \<Longrightarrow> nodes (add_edge u v attr G) = nodes G"
  by (simp add: add_edge_def add_node_def Let_def)

lemma fold_add_edge_frame:
  assumes "\<forall>e \<in> set es. f (fst e) \<in> set (nodes G) \<and> f (snd e) \<in> set (nodes G)"
  shows "nodes (fold (\<lambda>(a, b). add_edge (f a) (f b) attr) es G) = nodes G \<and>
     location (fold (\<lambda>(a, b). add_edge (f a) (f b) attr) es G) = location G \<and>
     age_group (fold (\<lambda>(a, b). add_edge (f a) (f b) attr) es G) = age_group G"
  using assms
proof (induction es arbitrary: G)
  case Nil
  show ?case by simp
next
  case (Cons e es)
  obtain a b where e: "e = (a, b)" by (cases e)
  let ?G = "add_edge (f a) (f b) attr G"
  from Cons.prems e have n: "nodes ?G = nodes G" by (simp add: add_edge_nodes_same)
  have "\<forall>e \<in> set es. f (fst e) \<in> set (nodes ?G) \<and> f (snd e) \<in> set (nodes ?G)"
    using Cons.prems by (simp add: n)
  from Cons.IH [OF this] n add_edge_static [of "f a" "f b" attr G] show ?case by (simp add: e)
qed

text \<open>A loop whose body never raises is a plain fold.\<close>

lemma fold_err_pure:
  assumes "Q s"
    and "\<And>x a. x \<in> set xs \<Longrightarrow> Q a \<Longrightarrow> f x a = Inr (h x a) \<and> Q (h x a)"
  shows "fold_err f xs s = Inr (fold h xs s) \<and> Q (fold h xs s)"
  using assms
proof (induction xs arbitrary: s)
  case Nil
  then show ?case by simp
next
  case (Cons x xs)
  from Cons.prems(2) [of x s] Cons.prems(1) have 1: "f x s = Inr (h x s)" "Q (h x s)" by simp_all
  have "fold_err f xs (h x s) = Inr (fold h xs (h x s)) \<and> Q (fold h xs (h x s))"
  proof (rule Cons.IH [OF 1(2)])
    fix y a assume "y \<in> set xs" "Q a"
    then show "f y a = Inr (h y a) \<and> Q (h y a)" using Cons.prems(2) [of y a] by simp
  qed
  with 1 show ?case by simp
qed

definition square :: "nat \<Rightarrow> int list list \<Rightarrow> bool" where
  "square N arr \<longleftrightarrow> length arr = N \<and> (\<forall>i < N. length (arr ! i) = N)"

definition mark_close :: "nx_graph \<Rightarrow> int \<Rightarrow> nat \<Rightarrow> int \<times> int \<Rightarrow> nat \<Rightarrow> int list list \<Rightarrow>
    int list list" where
  "mark_close G threshold node node_location other_node node_arr =
     (if node \<noteq> other_node \<and>
         calculate_chebyshev_dist (the (location G other_node)) node_location \<le> threshold
      then node_arr[node := (node_arr ! node)[other_node := 1]] else node_arr)"

lemma square_update:
  assumes "square N arr" "i < N" "j < N"
  shows "square N (arr[i := (arr ! i)[j := x]])"
    and "a < N \<Longrightarrow> b < N \<Longrightarrow>
         arr[i := (arr ! i)[j := x]] ! a ! b = (if a = i \<and> b = j then x else arr ! a ! b)"
  using assms by (auto simp: square_def nth_list_update)

lemma close_nodes_inner_pure:
  assumes "square N arr" "i < N" "j < N" "location G j \<noteq> None"
  shows "close_nodes_inner G thr i li j arr = Inr (mark_close G thr i li j arr) \<and>
     square N (mark_close G thr i li j arr)"
proof -
  from assms(4) obtain lj where lj: "location G j = Some lj" by auto
  have idx: "i < length arr \<and> j < length (arr ! i)" using assms(1,2,3) by (simp add: square_def)
  show ?thesis
    using idx square_update(1) [OF assms(1,2,3)] assms(1)
    by (simp add: close_nodes_inner_def mark_close_def lj Let_def)
qed

lemma mark_close_fold:
  assumes "square N arr" "i < N" "\<forall>j \<in> set js. j < N"
  shows "square N (fold (mark_close G thr i li) js arr) \<and>
     (\<forall>a < N. \<forall>b < N. fold (mark_close G thr i li) js arr ! a ! b =
        (if a = i \<and> b \<in> set js \<and> i \<noteq> b \<and>
            calculate_chebyshev_dist (the (location G b)) li \<le> thr
         then 1 else arr ! a ! b))"
  using assms(1,3)
proof (induction js arbitrary: arr)
  case Nil
  then show ?case by simp
next
  case (Cons j js)
  from Cons.prems(2) have j: "j < N" and js: "\<forall>j \<in> set js. j < N" by simp_all
  let ?arr = "mark_close G thr i li j arr"
  have sq: "square N ?arr"
    using square_update(1) [OF Cons.prems(1) assms(2) j] Cons.prems(1) by (simp add: mark_close_def)
  have ent: "?arr ! a ! b =
      (if a = i \<and> b = j \<and> i \<noteq> b \<and> calculate_chebyshev_dist (the (location G b)) li \<le> thr
       then 1 else arr ! a ! b)" if "a < N" "b < N" for a b
    using square_update(2) [OF Cons.prems(1) assms(2) j that] by (auto simp: mark_close_def)
  from Cons.IH [OF sq js] have ih: "square N (fold (mark_close G thr i li) js ?arr)"
    "\<And>a b. a < N \<Longrightarrow> b < N \<Longrightarrow> fold (mark_close G thr i li) js ?arr ! a ! b =
        (if a = i \<and> b \<in> set js \<and> i \<noteq> b \<and>
            calculate_chebyshev_dist (the (location G b)) li \<le> thr
         then 1 else ?arr ! a ! b)"
    by simp_all
  show ?case
  proof (intro conjI allI impI)
    show "square N (fold (mark_close G thr i li) (j # js) arr)" using ih(1) by simp
  next
    fix a b assume ab: "a < N" "b < N"
    show "fold (mark_close G thr i li) (j # js) arr ! a ! b =
        (if a = i \<and> b \<in> set (j # js) \<and> i \<noteq> b \<and>
            calculate_chebyshev_dist (the (location G b)) li \<le> thr
         then 1 else arr ! a ! b)"
      using ih(2) [OF ab] ent [OF ab] by auto
  qed
qed

definition mark_row :: "nx_graph \<Rightarrow> int \<Rightarrow> nat \<Rightarrow> int list list \<Rightarrow> int list list" where
  "mark_row G threshold node node_arr =
     fold (mark_close G threshold node (the (location G node))) (nodes G) node_arr"

lemma close_nodes_outer_pure:
  assumes "square N arr" "i < N" "\<forall>j \<in> set (nodes G). j < N \<and> location G j \<noteq> None"
    and "location G i \<noteq> None"
  shows "close_nodes_outer G thr i arr = Inr (mark_row G thr i arr) \<and>
     square N (mark_row G thr i arr)"
proof -
  from assms(4) obtain li where li: "location G i = Some li" by auto
  have "fold_err (close_nodes_inner G thr i li) (nodes G) arr
      = Inr (fold (mark_close G thr i li) (nodes G) arr) \<and>
        square N (fold (mark_close G thr i li) (nodes G) arr)"
  proof (rule fold_err_pure [where Q = "square N", OF assms(1)])
    fix j a assume "j \<in> set (nodes G)" "square N a"
    with assms(3) show "close_nodes_inner G thr i li j a = Inr (mark_close G thr i li j a) \<and>
        square N (mark_close G thr i li j a)"
      using close_nodes_inner_pure [of N a i j G thr li] assms(2) by simp
  qed
  then show ?thesis by (simp add: close_nodes_outer_def mark_row_def li)
qed

lemma mark_row_fold:
  assumes "square N arr" "\<forall>i \<in> set is. i < N" "\<forall>j \<in> set (nodes G). j < N"
  shows "square N (fold (mark_row G thr) is arr) \<and>
     (\<forall>a < N. \<forall>b < N. fold (mark_row G thr) is arr ! a ! b =
        (if a \<in> set is \<and> b \<in> set (nodes G) \<and> a \<noteq> b \<and>
            calculate_chebyshev_dist (the (location G b)) (the (location G a)) \<le> thr
         then 1 else arr ! a ! b))"
  using assms(1,2)
proof (induction "is" arbitrary: arr)
  case Nil
  then show ?case by simp
next
  case (Cons i "is")
  from Cons.prems(2) have i: "i < N" and rest: "\<forall>i \<in> set is. i < N" by simp_all
  let ?arr = "mark_row G thr i arr"
  from mark_close_fold [OF Cons.prems(1) i assms(3), of G thr "the (location G i)"]
  have sq: "square N ?arr"
    and ent: "\<And>a b. a < N \<Longrightarrow> b < N \<Longrightarrow> ?arr ! a ! b =
        (if a = i \<and> b \<in> set (nodes G) \<and> i \<noteq> b \<and>
            calculate_chebyshev_dist (the (location G b)) (the (location G i)) \<le> thr
         then 1 else arr ! a ! b)"
    by (simp_all add: mark_row_def)
  from Cons.IH [OF sq rest] have ih: "square N (fold (mark_row G thr) is ?arr)"
    "\<And>a b. a < N \<Longrightarrow> b < N \<Longrightarrow> fold (mark_row G thr) is ?arr ! a ! b =
        (if a \<in> set is \<and> b \<in> set (nodes G) \<and> a \<noteq> b \<and>
            calculate_chebyshev_dist (the (location G b)) (the (location G a)) \<le> thr
         then 1 else ?arr ! a ! b)"
    by simp_all
  show ?case
  proof (intro conjI allI impI)
    show "square N (fold (mark_row G thr) (i # is) arr)" using ih(1) by simp
  next
    fix a b assume ab: "a < N" "b < N"
    show "fold (mark_row G thr) (i # is) arr ! a ! b =
        (if a \<in> set (i # is) \<and> b \<in> set (nodes G) \<and> a \<noteq> b \<and>
            calculate_chebyshev_dist (the (location G b)) (the (location G a)) \<le> thr
         then 1 else arr ! a ! b)"
      using ih(2) [OF ab] ent [OF ab] by auto
  qed
qed

lemma set_close_nodes_arr_total:
  assumes ns: "nodes (graph GO) = [0..<N]"
    and loc: "\<forall>i < N. location (graph GO) i \<noteq> None"
  shows "\<exists>arr. set_close_nodes_arr GO = Inr (GO\<lparr>close_nodes_arr := arr\<rparr>) \<and> square N arr \<and>
     (\<forall>a < N. \<forall>b < N. arr ! a ! b =
        (if a \<noteq> b \<and>
            calculate_chebyshev_dist (the (location (graph GO) b)) (the (location (graph GO) a))
              \<le> closeness_threshold (graph_config GO)
         then 1 else 0))"
proof -
  let ?G = "graph GO"
  let ?thr = "closeness_threshold (graph_config GO)"
  let ?zeros = "replicate N (replicate N (0::int))"
  have sq0: "square N ?zeros" by (simp add: square_def)
  have in_N: "\<forall>j \<in> set (nodes ?G). j < N \<and> location ?G j \<noteq> None" using ns loc by simp
  have run: "fold_err (close_nodes_outer ?G ?thr) (nodes ?G) ?zeros
      = Inr (fold (mark_row ?G ?thr) (nodes ?G) ?zeros) \<and>
        square N (fold (mark_row ?G ?thr) (nodes ?G) ?zeros)"
  proof (rule fold_err_pure [where Q = "square N", OF sq0])
    fix i a assume "i \<in> set (nodes ?G)" "square N a"
    with in_N show "close_nodes_outer ?G ?thr i a = Inr (mark_row ?G ?thr i a) \<and>
        square N (mark_row ?G ?thr i a)"
      using close_nodes_outer_pure [of N a i ?G ?thr] by simp
  qed
  let ?arr = "fold (mark_row ?G ?thr) (nodes ?G) ?zeros"
  from in_N have lt: "\<forall>j \<in> set (nodes ?G). j < N" by simp
  from mark_row_fold [OF sq0 lt lt, of ?thr]
  have ent: "\<And>a b. a < N \<Longrightarrow> b < N \<Longrightarrow> ?arr ! a ! b =
        (if a \<in> set (nodes ?G) \<and> b \<in> set (nodes ?G) \<and> a \<noteq> b \<and>
            calculate_chebyshev_dist (the (location ?G b)) (the (location ?G a)) \<le> ?thr
         then 1 else ?zeros ! a ! b)"
    by simp
  have len: "length (nodes ?G) = N" by (simp add: ns)
  have res: "set_close_nodes_arr GO = Inr (GO\<lparr>close_nodes_arr := ?arr\<rparr>)"
    unfolding set_close_nodes_arr_def Let_def len using run by simp
  have sq: "square N ?arr" using run by (rule conjunct2)
  have mem: "a \<in> set (nodes ?G)" if "a < N" for a using that by (simp add: ns)
  have zero: "?zeros ! a ! b = 0" if "a < N" "b < N" for a b using that by simp
  have all: "\<forall>a < N. \<forall>b < N. ?arr ! a ! b =
        (if a \<noteq> b \<and>
            calculate_chebyshev_dist (the (location ?G b)) (the (location ?G a)) \<le> ?thr
         then 1 else 0)"
  proof (intro allI impI)
    fix a b assume ab: "a < N" "b < N"
    show "?arr ! a ! b =
        (if a \<noteq> b \<and>
            calculate_chebyshev_dist (the (location ?G b)) (the (location ?G a)) \<le> ?thr
         then 1 else 0)"
      unfolding ent [OF ab] using mem [OF ab(1)] mem [OF ab(2)] zero [OF ab] by auto
  qed
  show ?thesis
    by (rule exI [of _ ?arr]) (intro conjI res sq all)
qed

lemma create_graph_valid:
  assumes "create_graph age_struct rate (GO, g) = Inr r"
  shows "1 \<le> short_connection_diameter (config_params (graph_config GO)) \<and>
     0 \<le> long_connection_diameter (config_params (graph_config GO)) \<and>
     0 \<le> decay (config_params (graph_config GO))"
proof (rule ccontr)
  assume "\<not> ?thesis"
  then have "navigable_small_world_graph n
      (short_connection_diameter (config_params (graph_config GO)))
      (long_connection_diameter (config_params (graph_config GO)))
      (decay (config_params (graph_config GO))) g = Inl Exception" for n
    by (auto simp: navigable_small_world_graph_def)
  then have "create_graph age_struct rate (GO, g) = Inl Exception"
    by (simp add: create_graph_def set_navigable_small_world_graph_def Let_def bind_err_def)
  with assms show False by simp
qed

lemma create_graph_pipeline:
  fixes age_struct rate GO g
  assumes valid: "1 \<le> short_connection_diameter (config_params (graph_config GO))"
    "0 \<le> long_connection_diameter (config_params (graph_config GO))"
    "0 \<le> decay (config_params (graph_config GO))"
  defines "N \<equiv> sum_list (map snd age_struct)"
  defines "n \<equiv> ceil_sqrt N"
  defines "grid \<equiv> List.product (map int [0..<n]) (map int [0..<n])"
  defines "links \<equiv> filter (\<lambda>(a, b). a \<in> set grid \<and> b \<in> set grid)
                      (case lattices g of [] \<Rightarrow> [] | l # _ \<Rightarrow> l)"
  obtains extra_nodes g2 where
    "random_sample grid (int (n ^ 2) - int N) (g\<lparr>lattices := tl (lattices g)\<rparr>)
       = Inr (extra_nodes, g2)"
    "int (length extra_nodes) = int (n ^ 2) - int N" "distinct extra_nodes"
    "set extra_nodes \<subseteq> set grid"
    "create_graph age_struct rate (GO, g) =
       (case set_ages age_struct
               (set_generic_weights (GO\<lparr>infection_rate := Some rate,
                  graph := remove_selfloops (convert_node_labels_to_integers
                    (filter (\<lambda>a. a \<notin> set extra_nodes) grid)
                    (filter (\<lambda>(a, b). a \<notin> set extra_nodes \<and> b \<notin> set extra_nodes) links))\<rparr>),
                g2) of
          (GO2, g3) \<Rightarrow> bind_err (set_close_nodes_arr GO2) (\<lambda>GO3. Inr (GO3, g3)))"
proof -
  have dg: "distinct grid" unfolding grid_def by (simp add: distinct_product distinct_map inj_on_def)
  have lg: "length grid = n * n" unfolding grid_def by simp
  have ge: "N \<le> n * n" unfolding n_def by (rule ceil_sqrt_ge)
  let ?k = "int (n ^ 2) - int N"
  let ?g1 = "g\<lparr>lattices := tl (lattices g)\<rparr>"
  have "int N \<le> int (n * n)" using ge by (simp only: of_nat_le_iff)
  then have k: "0 \<le> ?k" "?k \<le> int (length grid)" by (simp_all add: lg power2_eq_square)
  obtain extra_nodes g2 where sl: "sample_loop (nat ?k) grid ?g1 = (extra_nodes, g2)"
    by (cases "sample_loop (nat ?k) grid ?g1")
  have smp: "random_sample grid ?k ?g1 = Inr (extra_nodes, g2)"
    using k sl by (simp add: random_sample_def)
  from random_sample_props [OF smp dg] have props: "int (length extra_nodes) = ?k"
      "distinct extra_nodes" "set extra_nodes \<subseteq> set grid"
    by simp_all
  have smp': "random_sample grid ((int n)\<^sup>2 - int N) ?g1 = Inr (extra_nodes, g2)"
    using smp by simp
  have nsw: "navigable_small_world_graph n
      (short_connection_diameter (config_params (graph_config GO)))
      (long_connection_diameter (config_params (graph_config GO)))
      (decay (config_params (graph_config GO))) g = Inr ((grid, links), ?g1)"
    using valid by (simp add: navigable_small_world_graph_def Let_def grid_def links_def)
  have "create_graph age_struct rate (GO, g) =
       (case set_ages age_struct
               (set_generic_weights (GO\<lparr>infection_rate := Some rate,
                  graph := remove_selfloops (convert_node_labels_to_integers
                    (filter (\<lambda>a. a \<notin> set extra_nodes) grid)
                    (filter (\<lambda>(a, b). a \<notin> set extra_nodes \<and> b \<notin> set extra_nodes) links))\<rparr>),
                g2) of
          (GO2, g3) \<Rightarrow> bind_err (set_close_nodes_arr GO2) (\<lambda>GO3. Inr (GO3, g3)))"
    unfolding create_graph_def set_navigable_small_world_graph_def
    by (simp add: Let_def N_def [symmetric] n_def [symmetric] nsw smp' bind_err_def)
  with smp props show ?thesis by (rule that)
qed

lemma convert_node_labels_frame:
  assumes "\<forall>e \<in> set dedges. fst e \<in> set dnodes \<and> snd e \<in> set dnodes"
  shows "nodes (convert_node_labels_to_integers dnodes dedges) = [0..<length dnodes] \<and>
     location (convert_node_labels_to_integers dnodes dedges)
       = (\<lambda>i. if i < length dnodes then Some (dnodes ! i) else None) \<and>
     age_group (convert_node_labels_to_integers dnodes dedges) = (\<lambda>i. None)"
proof -
  let ?G = "\<lparr>nodes = [0..<length dnodes], adj = (\<lambda>u. []),
        location = (\<lambda>i. if i < length dnodes then Some (dnodes ! i) else None),
        age_group = (\<lambda>i. None), visit_days = (\<lambda>i b. None)\<rparr> :: nx_graph"
  have "\<forall>e \<in> set dedges. index_of dnodes (fst e) \<in> set (nodes ?G) \<and>
      index_of dnodes (snd e) \<in> set (nodes ?G)"
    using assms by (simp add: index_of_less)
  from fold_add_edge_frame [OF this, of no_attrs] show ?thesis
    by (simp add: convert_node_labels_to_integers_def)
qed

lemma create_graph_result:
  fixes age_struct rate GO g
  assumes valid: "1 \<le> short_connection_diameter (config_params (graph_config GO))"
    "0 \<le> long_connection_diameter (config_params (graph_config GO))"
    "0 \<le> decay (config_params (graph_config GO))"
  defines "N \<equiv> sum_list (map snd age_struct)"
  obtains GO' g' dnodes dedges where
    "create_graph age_struct rate (GO, g) = Inr (GO', g')"
    "nodes (graph GO') = [0..<N]"
    "length dnodes = N"
    "\<forall>e \<in> set dedges. fst e \<in> set dnodes \<and> snd e \<in> set dnodes"
    "location (graph GO') = (\<lambda>i. if i < N then Some (dnodes ! i) else None)"
    "adj (graph GO') = adj (graph (set_generic_weights (GO\<lparr>infection_rate := Some rate,
        graph := remove_selfloops (convert_node_labels_to_integers dnodes dedges)\<rparr>)))"
    "infection_rate GO' = Some rate" "graph_config GO' = graph_config GO"
    "time_horizon GO' = time_horizon GO" "num_infected GO' = num_infected GO"
    "square N (close_nodes_arr GO')"
    "\<forall>a < N. \<forall>b < N. close_nodes_arr GO' ! a ! b =
        (if a \<noteq> b \<and>
            calculate_chebyshev_dist (the (location (graph GO') b)) (the (location (graph GO') a))
              \<le> closeness_threshold (graph_config GO')
         then 1 else 0)"
proof -
  define n where "n = ceil_sqrt N"
  define grid where "grid = List.product (map int [0..<n]) (map int [0..<n])"
  define links where "links = filter (\<lambda>(a, b). a \<in> set grid \<and> b \<in> set grid)
                      (case lattices g of [] \<Rightarrow> [] | l # _ \<Rightarrow> l)"
  obtain extra_nodes g2 where
    p: "int (length extra_nodes) = int (n ^ 2) - int N" "distinct extra_nodes"
      "set extra_nodes \<subseteq> set grid"
    and cg: "create_graph age_struct rate (GO, g) =
       (case set_ages age_struct
               (set_generic_weights (GO\<lparr>infection_rate := Some rate,
                  graph := remove_selfloops (convert_node_labels_to_integers
                    (filter (\<lambda>a. a \<notin> set extra_nodes) grid)
                    (filter (\<lambda>(a, b). a \<notin> set extra_nodes \<and> b \<notin> set extra_nodes) links))\<rparr>),
                g2) of
          (GO2, g3) \<Rightarrow> bind_err (set_close_nodes_arr GO2) (\<lambda>GO3. Inr (GO3, g3)))"
    using create_graph_pipeline [OF valid, of age_struct g rate]
    unfolding N_def [symmetric] n_def [symmetric] grid_def [symmetric] links_def [symmetric]
    by blast
  define dnodes where "dnodes = filter (\<lambda>a. a \<notin> set extra_nodes) grid"
  define dedges where
    "dedges = filter (\<lambda>(a, b). a \<notin> set extra_nodes \<and> b \<notin> set extra_nodes) links"
  have dg: "distinct grid" unfolding grid_def by (simp add: distinct_product distinct_map inj_on_def)
  have lg: "length grid = n * n" unfolding grid_def by simp
  have ge: "N \<le> n * n" unfolding n_def by (rule ceil_sqrt_ge)
  from p(1) have le: "length extra_nodes = n * n - N"
    by (simp add: power2_eq_square) (metis nat_int of_nat_mult nat_minus_as_int)
  have len: "length dnodes = N"
    unfolding dnodes_def length_filter_not_in [OF dg p(2) p(3)] using le lg ge by simp
  have ends: "\<forall>e \<in> set dedges. fst e \<in> set dnodes \<and> snd e \<in> set dnodes"
    unfolding dedges_def dnodes_def links_def by auto
  let ?G = "remove_selfloops (convert_node_labels_to_integers dnodes dedges)"
  let ?GO1 = "set_generic_weights (GO\<lparr>infection_rate := Some rate, graph := ?G\<rparr>)"
  obtain GO2 g3 where sa: "set_ages age_struct (?GO1, g2) = (GO2, g3)"
    by (cases "set_ages age_struct (?GO1, g2)")
  from convert_node_labels_frame [OF ends] have
    G: "nodes ?G = [0..<N]" "location ?G = (\<lambda>i. if i < N then Some (dnodes ! i) else None)"
    by (simp_all add: remove_selfloops_def len)
  have GO1: "nodes (graph ?GO1) = [0..<N]"
      "location (graph ?GO1) = (\<lambda>i. if i < N then Some (dnodes ! i) else None)"
      "infection_rate ?GO1 = Some rate" "graph_config ?GO1 = graph_config GO"
      "time_horizon ?GO1 = time_horizon GO" "num_infected ?GO1 = num_infected GO"
    using G by (simp_all add: set_generic_weights_def)
  from sa have GO2: "nodes (graph GO2) = nodes (graph ?GO1)"
      "location (graph GO2) = location (graph ?GO1)" "adj (graph GO2) = adj (graph ?GO1)"
      "infection_rate GO2 = infection_rate ?GO1" "graph_config GO2 = graph_config ?GO1"
      "time_horizon GO2 = time_horizon ?GO1" "num_infected GO2 = num_infected ?GO1"
    by (auto simp: set_ages_def Let_def split: prod.splits)
  have ns2: "nodes (graph GO2) = [0..<N]" using GO2(1) GO1(1) by simp
  have loc2: "\<forall>i < N. location (graph GO2) i \<noteq> None" using GO2(2) GO1(2) by simp
  from set_close_nodes_arr_total [OF ns2 loc2] obtain arr where
    arr: "set_close_nodes_arr GO2 = Inr (GO2\<lparr>close_nodes_arr := arr\<rparr>)" "square N arr"
      "\<forall>a < N. \<forall>b < N. arr ! a ! b =
        (if a \<noteq> b \<and>
            calculate_chebyshev_dist (the (location (graph GO2) b)) (the (location (graph GO2) a))
              \<le> closeness_threshold (graph_config GO2)
         then 1 else 0)"
    by blast
  let ?GO3 = "GO2\<lparr>close_nodes_arr := arr\<rparr>"
  have res: "create_graph age_struct rate (GO, g) = Inr (?GO3, g3)"
    unfolding cg dnodes_def [symmetric] dedges_def [symmetric] by (simp add: sa arr(1) bind_err_def)
  show ?thesis
  proof (rule that [of ?GO3 g3 dnodes dedges])
    show "create_graph age_struct rate (GO, g) = Inr (?GO3, g3)" by (rule res)
    show "nodes (graph ?GO3) = [0..<N]" using ns2 by simp
    show "length dnodes = N" by (rule len)
    show "\<forall>e \<in> set dedges. fst e \<in> set dnodes \<and> snd e \<in> set dnodes" by (rule ends)
    show "location (graph ?GO3) = (\<lambda>i. if i < N then Some (dnodes ! i) else None)"
      using GO2(2) GO1(2) by simp
    show "adj (graph ?GO3) = adj (graph ?GO1)" using GO2(3) by simp
    show "infection_rate ?GO3 = Some rate" using GO2(4) GO1(3) by simp
    show "graph_config ?GO3 = graph_config GO" using GO2(5) GO1(4) by simp
    show "time_horizon ?GO3 = time_horizon GO" using GO2(6) GO1(5) by simp
    show "num_infected ?GO3 = num_infected GO" using GO2(7) GO1(6) by simp
    show "square N (close_nodes_arr ?GO3)" using arr(2) by simp
    show "\<forall>a < N. \<forall>b < N. close_nodes_arr ?GO3 ! a ! b =
        (if a \<noteq> b \<and>
            calculate_chebyshev_dist (the (location (graph ?GO3) b)) (the (location (graph ?GO3) a))
              \<le> closeness_threshold (graph_config ?GO3)
         then 1 else 0)"
      using arr(3) by simp
  qed
qed

lemma timestep_static:
  assumes "timestep k m = Inr m'"
  shows "static_graph (graph_obj m) (graph_obj m')"
proof -
  from assms obtain m1 m2 m3 where r: "timestep_passes k m = Inr (m1, m2, m3, m')"
    by (auto simp: timestep_Inr_iff)
  from r obtain pw ds where f: "quiet (m\<lparr>curr_time := k\<rparr>) m1"
      "static_graph (graph_obj m1) (graph_obj m')"
    by (rule timestep_passes_facts)
  from f(1) have "static_graph (graph_obj m) (graph_obj m1)" by (simp add: quiet_def)
  then show ?thesis using f(2) by (rule static_graph_trans)
qed

lemma basic_simulation_static:
  assumes "basic_simulation m0 = Inr m"
  shows "static_graph (graph_obj m0) (graph_obj m)"
proof -
  from assms obtain infected g' m1 m2 where
    mk: "make_states_dict (m0\<lparr>random_state := g'\<rparr>) = Inr m1"
    and seed: "fold_err (\<lambda>vertex. set_state 0 vertex I) infected m1 = Inr m2"
    and loop: "fold_err timestep [0..<time_horizon (graph_obj m2)] m2 = Inr m"
    by (auto simp: basic_simulation_def bind_err_Inr_iff)
  from mk have "fold_err (\<lambda>guy. set_state 0 guy S) (nodes (graph (graph_obj m0)))
      (m0\<lparr>random_state := g',
          states_dict := (\<lambda>timestep. if timestep < time_horizon (graph_obj m0) + 1 then Some []
                                       else None)\<rparr>) = Inr m1"
    by (simp add: make_states_dict_def)
  from fold_set_state [OF this] have g1: "graph_obj m1 = graph_obj m0" by simp
  from fold_set_state [OF seed] have g2: "graph_obj m2 = graph_obj m1" by simp
  have "static_graph (graph_obj m2) (graph_obj m)"
    using loop
  proof (rule fold_err_rel [where Q = "\<lambda>a b. static_graph (graph_obj a) (graph_obj b)"])
    show "static_graph (graph_obj a) (graph_obj a)" for a by (rule static_graph_refl)
    show "static_graph (graph_obj a) (graph_obj c)"
      if "static_graph (graph_obj a) (graph_obj b)" "static_graph (graph_obj b) (graph_obj c)"
      for a b c using that by (rule static_graph_trans)
    show "static_graph (graph_obj a) (graph_obj b)" if "timestep x a = Inr b" for x a b
      using that by (rule timestep_static)
  qed
  then show ?thesis by (simp add: g1 g2)
qed

lemma calculate_chebyshev_dist_commute:
  "calculate_chebyshev_dist a b = calculate_chebyshev_dist b a"
  by (simp add: calculate_chebyshev_dist_def abs_minus_commute)

section \<open>A small population for concrete runs\<close>

text \<open>
  Two people joined by one lattice edge of weight \<open>1/2\<close>, one age group, no behaviours; an
  exposed person stays exposed and an infectious person stays infectious.
\<close>

definition ex_config :: graph_config where
  "ex_config = \<lparr>config_params = \<lparr>short_connection_diameter = 1, long_connection_diameter = 1,
                                   decay = 2\<rparr>, closeness_threshold = 1\<rparr>"

definition ex_nx :: nx_graph where
  "ex_nx = \<lparr>nodes = [0, 1],
            adj = (\<lambda>u. if u = 0 then [(1, \<lparr>weight = Some (1 / 2), interaction_edge = None\<rparr>)]
                       else if u = 1 then [(0, \<lparr>weight = Some (1 / 2), interaction_edge = None\<rparr>)]
                       else []),
            location = (\<lambda>i. if i = 0 then Some (0, 0) else if i = 1 then Some (0, 1) else None),
            age_group = (\<lambda>i. if i < 2 then Some ''a'' else None),
            visit_days = (\<lambda>i b. None)\<rparr>"

definition ex_Graph :: "nat \<Rightarrow> Graph" where
  "ex_Graph horizon = \<lparr>graph = ex_nx, time_horizon = horizon, num_infected = 1,
                        graph_config = ex_config, infection_rate = Some (1 / 2),
                        close_nodes_arr = [[0, 1], [1, 0]]\<rparr>"

definition ex_Params :: Params where
  "ex_Params = \<lparr>state_transitions = [(E, [(E, [(''a'', 1)])]), (I, [(I, [(''a'', 1)])])],
                generic_infection = Some (1 / 2),
                age_structure = [(''a'', 2)], population_size = Some 2, behaviours_dict = []\<rparr>"

definition ex_Simulation :: "nat \<Rightarrow> Simulation" where
  "ex_Simulation horizon = \<lparr>sim_params = ex_Params, sim_graph = ex_Graph horizon,
                             new_graph_per_run = False, load_graph_filename = []\<rparr>"

definition ex_Model :: "nat \<Rightarrow> int list \<Rightarrow> Model" where
  "ex_Model horizon rs = \<lparr>params = ex_Params, graph_obj = ex_Graph horizon,
                           states_dict = (\<lambda>t. None), curr_time = 0,
                           random_state = \<lparr>raws = rs, lattices = []\<rparr>, writes = [], draws = []\<rparr>"

section \<open>Reloading a graph\<close>

text \<open>
  C8. \<open>load_graph_from_file\<close> raises exactly when one of the five compared fields of the
  loaded graph (graph_config, time_horizon, num_infected, the number of nodes against the
  population size, infection_rate against the generic infection rate) differs from the
  current configuration. When it raises, nothing is assigned: the simulation keeps its graph.
  When it does not, the result is the simulation with the loaded graph in place of its own.
\<close>

theorem load_graph_from_file_validates:
  "((\<exists>e. load_graph_from_file loaded_graph sim = Inl e) =
      (graph_config loaded_graph \<noteq> graph_config (sim_graph sim) \<or>
       time_horizon loaded_graph \<noteq> time_horizon (sim_graph sim) \<or>
       num_infected loaded_graph \<noteq> num_infected (sim_graph sim) \<or>
       Some (length (nodes (graph loaded_graph))) \<noteq> population_size (sim_params sim) \<or>
       infection_rate loaded_graph \<noteq> generic_infection (sim_params sim))) \<and>
   (load_graph_from_file loaded_graph sim = Inl Exception \<or>
    load_graph_from_file loaded_graph sim = Inr (sim\<lparr>sim_graph := loaded_graph\<rparr>))"
  by (auto simp: load_graph_from_file_def Let_def)

theorem load_graph_from_file_validates_witness:
  "load_graph_from_file (ex_Graph 7) (ex_Simulation 7)
     = Inr ((ex_Simulation 7)\<lparr>sim_graph := ex_Graph 7\<rparr>) \<and>
   load_graph_from_file (ex_Graph 14) (ex_Simulation 7) = Inl Exception"
  using load_graph_from_file_validates [of "ex_Graph 7" "ex_Simulation 7"]
    load_graph_from_file_validates [of "ex_Graph 14" "ex_Simulation 7"]
  by (simp add: load_graph_from_file_def ex_Graph_def ex_Simulation_def ex_Params_def ex_nx_def)

section \<open>Averaging several runs\<close>

text \<open>
  C2 does not hold of the code. Each series has one entry per step of
  \<^verbatim>\<open>range(1, time_horizon + 1, 7)\<close>, that is \<open>(time_horizon + 6) div 7\<close> entries, and the
  repair loop of \<open>run_multiple\<close> runs over \<^verbatim>\<open>range(time_horizon // 7)\<close>: when 7 does not
  divide the horizon, the last entry is never repaired. Here the horizon is 8 and two runs
  are averaged. In the first run the susceptible person escapes every infection draw; in the
  second they are exposed from step 1 on. The means of S and of E are \<open>1/2\<close> at both reporting
  steps and round to 0. The first entry is repaired (I becomes 2); the last one is left
  summing to 1 in a population of 2.
\<close>

theorem run_multiple_last_step_unrepaired:
  "(case run_multiple (\<lambda>f. None) 2
           (ex_Simulation 8,
            \<lparr>raws = 0 # concat (replicate 8 [0, 2 ^ 53 - 1]) @ replicate 17 0, lattices = []\<rparr>) of
      Inl e \<Rightarrow> None
    | Inr (averaged, sim, g) \<Rightarrow>
        Some (map averaged STATES, population_size (sim_params sim),
              map (\<lambda>ix. sum_list (map (\<lambda>s. averaged s ! ix) STATES)) [0..<2]))
   = Some ([[0, 0], [0, 0], [0, 0], [2, 1], [0, 0], [0, 0], [0, 0]], Some 2, [2, 1])"
  by code_simp

section \<open>The state timeline of a run\<close>

text \<open>
  C4. After \<open>basic_simulation\<close> has returned, the timeline has, at every timestep \<open>t\<close> from 0
  to the time horizon, a dictionary whose keys are exactly the nodes of the graph, each once.
  So every node reads one of the seven compartments at \<open>t\<close>, and the counts of the seven
  compartments at \<open>t\<close> sum to the number of nodes. The run leaves the node list and the
  horizon as they were. The node list of a networkx graph has no repeats, which is the one
  thing assumed of the graph the run starts from.
\<close>

theorem basic_simulation_one_compartment:
  assumes "basic_simulation m0 = Inr m"
    and "distinct (nodes (graph (graph_obj m0)))"
    and "t \<le> time_horizon (graph_obj m0)"
  shows "time_horizon (graph_obj m) = time_horizon (graph_obj m0) \<and>
     nodes (graph (graph_obj m)) = nodes (graph (graph_obj m0)) \<and>
     (\<exists>d. states_dict m t = Some d \<and> distinct (map fst d) \<and>
          set (map fst d) = set (nodes (graph (graph_obj m)))) \<and>
     (\<forall>n \<in> set (nodes (graph (graph_obj m))). \<exists>s \<in> set STATES. get_state m t n = Inr s) \<and>
     (\<exists>counts. get_state_counts m t = Inr counts \<and>
          sum_list (map counts STATES) = length (nodes (graph (graph_obj m))))"
proof -
  let ?T = "time_horizon (graph_obj m0)"
  let ?ns = "nodes (graph (graph_obj m0))"
  from basic_simulation_inv [OF assms(1)] have
    i: "time_horizon (graph_obj m) = ?T" "nodes (graph (graph_obj m)) = ?ns"
      "\<And>t. (states_dict m t \<noteq> None) = (t \<le> ?T)" "distinct_keys (states_dict m)"
      "\<And>t n. (state_at (states_dict m) t n \<noteq> None) = (t \<le> ?T \<and> n \<in> set ?ns)"
    by (simp_all add: run_inv_def)
  from i(3) [of t] assms(3) obtain d where d: "states_dict m t = Some d" by auto
  from i(4) d have dist: "distinct (map fst d)" by (simp add: distinct_keys_def)
  have keys: "set (map fst d) = set ?ns"
  proof -
    have "n \<in> set (map fst d) \<longleftrightarrow> n \<in> set ?ns" for n
      using i(5) [of t n] assms(3) d by (simp add: state_at_def map_of_eq_None_iff)
    then show ?thesis by blast
  qed
  have each: "\<exists>s \<in> set STATES. get_state m t n = Inr s" if "n \<in> set ?ns" for n
  proof -
    from i(5) [of t n] that assms(3) obtain s where "state_at (states_dict m) t n = Some s"
      by auto
    then have "get_state m t n = Inr s" by (simp add: get_state_Inr_iff)
    moreover have "s \<in> set STATES" by (cases s) (simp_all add: STATES_def)
    ultimately show ?thesis by blast
  qed
  have "length d = length (map fst d)" by simp
  also have "\<dots> = card (set (map fst d))" using distinct_card [OF dist] by simp
  also have "\<dots> = card (set ?ns)" by (simp only: keys)
  also have "\<dots> = length ?ns" using assms(2) by (simp add: distinct_card)
  finally have len: "length d = length ?ns" .
  have counts: "get_state_counts m t = Inr (\<lambda>s. count_list (map snd d) s)"
    by (simp add: get_state_counts_def d)
  have total: "sum_list (map (\<lambda>s. count_list (map snd d) s) STATES) = length ?ns"
    using sum_list_count_STATES [of "map snd d"] len by simp
  show ?thesis
    using i(1,2) d dist keys each counts total by auto
qed

theorem basic_simulation_one_compartment_witness:
  "\<exists>m. basic_simulation (ex_Model 7 []) = Inr m \<and>
     (\<exists>d. states_dict m 3 = Some d \<and> distinct (map fst d) \<and> set (map fst d) = {0, 1}) \<and>
     (\<exists>s0 s1. get_state m 3 0 = Inr s0 \<and> get_state m 3 1 = Inr s1) \<and>
     (\<exists>counts. get_state_counts m 3 = Inr counts \<and> sum_list (map counts STATES) = 2)"
proof -
  have "case basic_simulation (ex_Model 7 []) of Inl e \<Rightarrow> False | Inr m \<Rightarrow> True"
    by code_simp
  then obtain m where m: "basic_simulation (ex_Model 7 []) = Inr m"
    by (cases "basic_simulation (ex_Model 7 [])") auto
  have ns: "nodes (graph (graph_obj (ex_Model 7 []))) = [0, 1]"
    and T: "time_horizon (graph_obj (ex_Model 7 [])) = 7"
    by (simp_all add: ex_Model_def ex_Graph_def ex_nx_def)
  have "distinct (nodes (graph (graph_obj (ex_Model 7 []))))" "3 \<le> time_horizon (graph_obj (ex_Model 7 []))"
    by (simp_all add: ns T)
  from basic_simulation_one_compartment [OF m this] m show ?thesis
    by (auto simp: ns)
qed

section \<open>The reporting series of a run\<close>

text \<open>
  C1 as stated fails: \<open>get_results\<close> loops over \<^verbatim>\<open>range(1, time_horizon + 1, 7)\<close>, so the
  series starts at timestep 1, not 0. With a horizon of 7 the two-person run below reports
  one entry per compartment, the counts at timestep 1 (S 0, E 1, I 1); the counts at
  timestep 0 (S 1, I 1) are not in the series.
\<close>

theorem get_results_skips_step_0:
  "bind_err (basic_simulation (ex_Model 7 [])) (\<lambda>m.
     bind_err (get_results m) (\<lambda>res.
     bind_err (get_state_counts m 0) (\<lambda>counts0.
     bind_err (get_state_counts m 1) (\<lambda>counts1.
       Inr (map res STATES, map counts0 STATES, map counts1 STATES)))))
   = Inr ([[0], [1], [0], [1], [0], [0], [0]], [1, 0, 0, 1, 0, 0, 0], [0, 1, 0, 1, 0, 0, 0])"
  by code_simp

text \<open>
  C1, amended. After a run, \<open>get_results\<close> returns, and each compartment's list has
  \<open>(time_horizon + 6) div 7\<close> entries, one per timestep 1, 8, 15, \<dots> up to the horizon: entry
  \<open>k\<close> (from 0) is the count of nodes in that compartment at timestep \<open>7 * k + 1\<close>.
\<close>

theorem get_results_samples:
  assumes "basic_simulation m0 = Inr m"
  shows "\<exists>res. get_results m = Inr res \<and>
     (\<forall>s. length (res s) = (time_horizon (graph_obj m) + 6) div 7 \<and>
        (\<forall>k < (time_horizon (graph_obj m) + 6) div 7.
           \<exists>counts. get_state_counts m (7 * k + 1) = Inr counts \<and> res s ! k = counts s))"
proof -
  let ?T = "time_horizon (graph_obj m)"
  from basic_simulation_inv [OF assms] have
    i: "time_horizon (graph_obj m) = time_horizon (graph_obj m0)"
      "\<And>t. (states_dict m t \<noteq> None) = (t \<le> time_horizon (graph_obj m0))"
    by (simp_all add: run_inv_def)
  have alloc: "states_dict m t \<noteq> None" if "t \<le> ?T" for t using i that by simp
  let ?res = "\<lambda>s. map (\<lambda>k. count_list (map snd (the (states_dict m (7 * k + 1)))) s)
                     [0..<(?T + 6) div 7]"
  from get_results_eq [OF alloc] have res: "get_results m = Inr ?res" .
  have "\<exists>counts. get_state_counts m (7 * k + 1) = Inr counts \<and> ?res s ! k = counts s"
    if "k < (?T + 6) div 7" for k s
  proof -
    from that have "7 * k + 1 \<le> ?T" by simp
    with alloc [of "7 * k + 1"] obtain d where d: "states_dict m (7 * k + 1) = Some d" by auto
    then have "get_state_counts m (7 * k + 1) = Inr (\<lambda>s. count_list (map snd d) s)"
      by (simp add: get_state_counts_def)
    moreover have "?res s ! k = count_list (map snd d) s" using that d by simp
    ultimately show ?thesis by simp
  qed
  with res show ?thesis by (intro exI [of _ ?res]) simp
qed

theorem get_results_samples_witness:
  "\<exists>m res. basic_simulation (ex_Model 8 []) = Inr m \<and> get_results m = Inr res \<and>
     length (res S) = 2 \<and>
     (\<exists>counts. get_state_counts m 1 = Inr counts \<and> res S ! 0 = counts S) \<and>
     (\<exists>counts. get_state_counts m 8 = Inr counts \<and> res S ! 1 = counts S)"
proof -
  have "case basic_simulation (ex_Model 8 []) of Inl e \<Rightarrow> False | Inr m \<Rightarrow> True"
    by code_simp
  then obtain m where m: "basic_simulation (ex_Model 8 []) = Inr m"
    by (cases "basic_simulation (ex_Model 8 [])") auto
  have "case basic_simulation (ex_Model 8 []) of Inl e \<Rightarrow> False
        | Inr m \<Rightarrow> time_horizon (graph_obj m) = 8"
    by code_simp
  with m have T: "time_horizon (graph_obj m) = 8" by simp
  from get_results_samples [OF m] obtain res where
    res: "get_results m = Inr res"
      "\<And>s. length (res s) = (time_horizon (graph_obj m) + 6) div 7"
      "\<And>s k. k < (time_horizon (graph_obj m) + 6) div 7 \<Longrightarrow>
          \<exists>counts. get_state_counts m (7 * k + 1) = Inr counts \<and> res s ! k = counts s"
    by blast
  from res(2) [of S] res(3) [of 0 S] res(3) [of 1 S] m res(1) show ?thesis
    by (simp add: T)
qed

section \<open>The passes of one timestep\<close>

text \<open>The two-person model as \<open>basic_simulation\<close> has it when its loop starts, person 0
  seeded as infectious.\<close>

definition ex_seeded :: "nat \<Rightarrow> int list \<Rightarrow> Model" where
  "ex_seeded horizon rs =
     (case bind_err (make_states_dict (ex_Model horizon rs))
             (fold_err (\<lambda>vertex. set_state 0 vertex I) [0]) of
        Inl e \<Rightarrow> ex_Model horizon rs
      | Inr m \<Rightarrow> m)"

text \<open>
  Three people on a path: person 2 is joined to persons 0 and 1 by lattice edges of weight
  \<open>1/2\<close>. The model is taken when the loop of \<open>basic_simulation\<close> starts, persons 0 and 1
  seeded as infectious; \<open>behaviours\<close> is the behaviour dictionary of the parameters.
\<close>

definition ex3_nx :: nx_graph where
  "ex3_nx = \<lparr>nodes = [0, 1, 2],
             adj = (\<lambda>u. if u = 0 then [(2, \<lparr>weight = Some (1 / 2), interaction_edge = None\<rparr>)]
                        else if u = 1 then [(2, \<lparr>weight = Some (1 / 2), interaction_edge = None\<rparr>)]
                        else if u = 2 then [(0, \<lparr>weight = Some (1 / 2), interaction_edge = None\<rparr>),
                                            (1, \<lparr>weight = Some (1 / 2), interaction_edge = None\<rparr>)]
                        else []),
             location = (\<lambda>i. if i = 0 then Some (0, 0) else if i = 1 then Some (0, 1)
                              else if i = 2 then Some (1, 0) else None),
             age_group = (\<lambda>i. if i < 3 then Some ''a'' else None),
             visit_days = (\<lambda>i b. None)\<rparr>"

definition ex3_Model :: "(string \<times> behaviour_spec) list \<Rightarrow> nat \<Rightarrow> int list \<Rightarrow> Model" where
  "ex3_Model behaviours horizon rs =
     \<lparr>params = ex_Params\<lparr>age_structure := [(''a'', 3)], population_size := Some 3,
                           behaviours_dict := behaviours\<rparr>,
      graph_obj = \<lparr>graph = ex3_nx, time_horizon = horizon, num_infected = 2,
                    graph_config = ex_config, infection_rate = Some (1 / 2),
                    close_nodes_arr = [[0, 1, 1], [1, 0, 1], [1, 1, 0]]\<rparr>,
      states_dict = (\<lambda>t. None), curr_time = 0,
      random_state = \<lparr>raws = rs, lattices = []\<rparr>, writes = [], draws = []\<rparr>"

definition ex3_seeded :: "(string \<times> behaviour_spec) list \<Rightarrow> nat \<Rightarrow> int list \<Rightarrow> Model" where
  "ex3_seeded behaviours horizon rs =
     (case bind_err (make_states_dict (ex3_Model behaviours horizon rs))
             (fold_err (\<lambda>vertex. set_state 0 vertex I) [0, 1]) of
        Inl e \<Rightarrow> ex3_Model behaviours horizon rs
      | Inr m \<Rightarrow> m)"

text \<open>
  C3 as stated fails: \<open>_do_progression\<close> assigns the next state of every node, also of a node
  whose state is S (it copies R, D and S forward), and \<open>_infect_neighbours\<close> then assigns E
  over it. In the first timestep of the two-person run, person 1 is S at timestep 0; the
  progression pass writes \<open>(1, 1, S)\<close> and the infection pass writes \<open>(1, 1, E)\<close>: the same
  node is written by both passes.
\<close>

theorem passes_write_same_node:
  "bind_err (get_state (ex_seeded 1 []) 0 1) (\<lambda>st.
     bind_err (timestep_passes 0 (ex_seeded 1 [])) (\<lambda>(m1, m2, m3, m4).
       Inr (st, new_writes m1 m2, new_writes m2 m3)))
   = Inr (S, [(1, 0, I), (1, 1, S)], [(1, 1, E)])"
  by code_simp

text \<open>
  C3, amended. In the processing of timestep \<open>k\<close> (\<open>m1\<close> to \<open>m4\<close> are the model after each of
  its four passes), the assignments to the state timeline are those of the progression pass
  followed by those of the infection pass; adding and removing the interaction edges
  assigns nothing.
  \<^item> The progression pass assigns the state at \<open>k + 1\<close> once for each entry of the node list,
    in its order, whatever the node's state at \<open>k\<close>; for a node in S, D or R at \<open>k\<close> the
    state assigned is that same state.
  \<^item> The infection pass assigns once for each of its draws that succeeds (\<open>luck \<le> prob\<close>),
    in the order of the draws: always E, always at \<open>k + 1\<close>, and always to a node whose
    state at \<open>k\<close> is S. A node in S with several successful draws is assigned several times.
  \<^item> Afterwards every node of the graph has a state at \<open>k + 1\<close>, and it is the one assigned
    last to it in this timestep.
\<close>

theorem timestep_writes:
  assumes "timestep_passes k m = Inr (m1, m2, m3, m4)"
  shows "new_writes m m1 = [] \<and> new_writes m3 m4 = [] \<and>
     new_writes m m4 = new_writes m1 m2 @ new_writes m2 m3 \<and>
     map (\<lambda>w. (fst w, fst (snd w))) (new_writes m1 m2)
       = map (\<lambda>n. (k + 1, n)) (nodes (graph (graph_obj m1))) \<and>
     (\<forall>w \<in> set (new_writes m1 m2). \<forall>st \<in> {S, D, R}.
        get_state m k (fst (snd w)) = Inr st \<longrightarrow> snd (snd w) = st) \<and>
     new_writes m2 m3 = exposure_writes (new_draws m m4) \<and>
     (\<forall>w \<in> set (new_writes m2 m3).
        fst w = k + 1 \<and> snd (snd w) = E \<and> get_state m k (fst (snd w)) = Inr S) \<and>
     (\<forall>n \<in> set (nodes (graph (graph_obj m1))).
        filter (\<lambda>w. fst w = k + 1 \<and> fst (snd w) = n) (new_writes m m4) \<noteq> [] \<and>
        get_state m4 (k + 1) n =
          Inr (snd (snd (last (filter (\<lambda>w. fst w = k + 1 \<and> fst (snd w) = n)
                                 (new_writes m m4))))))"
proof -
  from assms obtain pw ds where
    f: "writes m1 = writes m" "writes m2 = writes m @ pw"
      "writes m3 = writes m2 @ exposure_writes ds" "writes m4 = writes m3"
      "states_dict m2 = fold write_to pw (states_dict m)"
      "states_dict m3 = fold write_to (exposure_writes ds) (states_dict m2)"
      "states_dict m4 = states_dict m3"
      "map (\<lambda>w. (fst w, fst (snd w))) pw = map (\<lambda>n. (k + 1, n)) (nodes (graph (graph_obj m1)))"
      "\<forall>w \<in> set pw. \<forall>st. state_at (states_dict m) k (fst (snd w)) = Some st \<longrightarrow>
          st \<in> {R, D, S} \<longrightarrow> snd (snd w) = st"
      "nodes (graph (graph_obj m1)) \<noteq> [] \<longrightarrow> states_dict m (k + 1) \<noteq> None"
      "\<forall>e \<in> set ds. draw_ok m1 e \<and> fst (snd e) \<in> set (nodes (graph (graph_obj m1))) \<and>
        state_at (states_dict m) k (fst (snd e)) \<in> {Some I, Some A}"
      "states_dict m1 = states_dict m" "quiet (m\<lparr>curr_time := k\<rparr>) m1"
      "draws m3 = draws m @ ds" "draws m4 = draws m3"
    by (rule timestep_passes_facts)
  have ct1: "curr_time m1 = k" using f(13) by (simp add: quiet_def)
  have nd: "new_draws m m4 = ds" using f(14,15) by (simp add: new_draws_def)
  have w01: "new_writes m m1 = []" and w34: "new_writes m3 m4 = []"
    and w12: "new_writes m1 m2 = pw" and w23: "new_writes m2 m3 = exposure_writes ds"
    and w04: "new_writes m m4 = pw @ exposure_writes ds"
    using f(1,2,3,4) by (simp_all add: new_writes_def)
  have copy: "\<forall>w \<in> set pw. \<forall>st \<in> {S, D, R}.
        get_state m k (fst (snd w)) = Inr st \<longrightarrow> snd (snd w) = st"
    using f(9) by (auto simp: get_state_Inr_iff)
  have inf: "fst w = k + 1 \<and> snd (snd w) = E \<and> get_state m k (fst (snd w)) = Inr S"
    if "w \<in> set (exposure_writes ds)" for w
  proof -
    from that obtain e where e: "e \<in> set ds" "w = (fst e + 1, fst (snd (snd e)), E)"
      unfolding exposure_writes_iff by blast
    from f(11) e(1) have "draw_ok m1 e" by simp
    then have d: "fst e = k" "state_at (states_dict m) k (fst (snd (snd e))) = Some S"
      by (cases e; auto simp: draw_ok_def ct1 f(12))+
    from d e(2) show ?thesis by (simp add: get_state_Inr_iff)
  qed
  have sd4: "states_dict m4 = fold write_to (pw @ exposure_writes ds) (states_dict m)"
    by (simp add: f(5,6,7))
  have after: "filter (\<lambda>w. fst w = k + 1 \<and> fst (snd w) = n) (pw @ exposure_writes ds) \<noteq> [] \<and>
        get_state m4 (k + 1) n =
          Inr (snd (snd (last (filter (\<lambda>w. fst w = k + 1 \<and> fst (snd w) = n)
                                 (pw @ exposure_writes ds)))))"
    if n: "n \<in> set (nodes (graph (graph_obj m1)))" for n
  proof -
    from n f(10) have alloc: "states_dict m (k + 1) \<noteq> None" by auto
    have "(k + 1, n) \<in> set (map (\<lambda>w. (fst w, fst (snd w))) pw)" unfolding f(8) using n by simp
    then obtain w where "w \<in> set pw" "fst w = k + 1 \<and> fst (snd w) = n" by force
    then have "w \<in> set (filter (\<lambda>w. fst w = k + 1 \<and> fst (snd w) = n) (pw @ exposure_writes ds))"
      by simp
    then have ne: "filter (\<lambda>w. fst w = k + 1 \<and> fst (snd w) = n) (pw @ exposure_writes ds) \<noteq> []"
      by (metis empty_iff empty_set)
    from state_at_fold_last_write [of "states_dict m" "k + 1" n "pw @ exposure_writes ds",
        OF alloc ne]
    have "state_at (states_dict m4) (k + 1) n
        = Some (snd (snd (last (filter (\<lambda>w. fst w = k + 1 \<and> fst (snd w) = n)
                                  (pw @ exposure_writes ds)))))"
      unfolding sd4 .
    then have "get_state m4 (k + 1) n
        = Inr (snd (snd (last (filter (\<lambda>w. fst w = k + 1 \<and> fst (snd w) = n)
                                  (pw @ exposure_writes ds)))))"
      by (simp add: get_state_Inr_iff)
    with ne show ?thesis by simp
  qed
  show ?thesis
    unfolding w01 w34 w12 w23 w04 nd using f(8) copy inf after by blast
qed

theorem timestep_writes_witness:
  "\<exists>m1 m2 m3 m4. timestep_passes 0 (ex3_seeded [] 1 []) = Inr (m1, m2, m3, m4) \<and>
     new_writes m1 m2 = [(1, 0, I), (1, 1, I), (1, 2, S)] \<and>
     new_writes m2 m3 = [(1, 2, E), (1, 2, E)] \<and>
     new_writes (ex3_seeded [] 1 []) m4
       = [(1, 0, I), (1, 1, I), (1, 2, S), (1, 2, E), (1, 2, E)] \<and>
     get_state m4 (0 + 1) 2 = Inr E"
proof -
  have "case timestep_passes 0 (ex3_seeded [] 1 []) of Inl e \<Rightarrow> False
        | Inr (m1, m2, m3, m4) \<Rightarrow> 2 \<in> set (nodes (graph (graph_obj m1))) \<and>
            new_writes m1 m2 = [(1, 0, I), (1, 1, I), (1, 2, S)] \<and>
            new_writes m2 m3 = [(1, 2, E), (1, 2, E)]"
    by code_simp
  then obtain m1 m2 m3 m4 where
    r: "timestep_passes 0 (ex3_seeded [] 1 []) = Inr (m1, m2, m3, m4)"
    and n: "2 \<in> set (nodes (graph (graph_obj m1)))"
    and p: "new_writes m1 m2 = [(1, 0, I), (1, 1, I), (1, 2, S)]"
    and i: "new_writes m2 m3 = [(1, 2, E), (1, 2, E)]"
    by (cases "timestep_passes 0 (ex3_seeded [] 1 [])") auto
  from timestep_writes [OF r] have
    all: "new_writes (ex3_seeded [] 1 []) m4 = new_writes m1 m2 @ new_writes m2 m3"
    and last: "\<forall>n \<in> set (nodes (graph (graph_obj m1))).
        filter (\<lambda>w. fst w = 0 + 1 \<and> fst (snd w) = n) (new_writes (ex3_seeded [] 1 []) m4) \<noteq> [] \<and>
        get_state m4 (0 + 1) n =
          Inr (snd (snd (last (filter (\<lambda>w. fst w = 0 + 1 \<and> fst (snd w) = n)
                                 (new_writes (ex3_seeded [] 1 []) m4)))))"
    by blast+
  from last n have "get_state m4 (0 + 1) 2 =
      Inr (snd (snd (last (filter (\<lambda>w. fst w = 0 + 1 \<and> fst (snd w) = 2)
                             (new_writes (ex3_seeded [] 1 []) m4)))))"
    by blast
  then have "get_state m4 (0 + 1) 2 = Inr E" unfolding all p i by simp
  with r p i all show ?thesis by auto
qed

section \<open>Transitions of one timestep\<close>

text \<open>
  C5. In the processing of timestep \<open>k\<close> (\<open>m1\<close> to \<open>m4\<close> are the model after each of its four
  passes), for every node \<open>u\<close> of the graph:
  \<^item> if \<open>u\<close> is in D or in R at \<open>k\<close>, it is in the same state at \<open>k + 1\<close>;
  \<^item> if \<open>u\<close> is in S at \<open>k\<close>, it is in E at \<open>k + 1\<close> when one of the draws of this timestep
    made for \<open>u\<close> was at most the infection probability it was compared with, and in S
    otherwise.

  The draws of the timestep are recorded as \<open>(k, v, w, luck, prob)\<close>. Each is made for a node
  \<open>w\<close> in S at \<open>k\<close>, from a neighbour \<open>v\<close> in I or A at \<open>k\<close>; \<open>prob\<close> is the weight of the edge
  between them in the graph of this timestep (interaction edges added), and \<open>luck\<close> lies in
  \<open>[0, 1)\<close>. The numbers drawn are the results of successive calls of
  \<^verbatim>\<open>random.random()\<close>, one call for each draw, on the generator as the progression
  pass left it; the infection pass leaves the generator as these calls leave it. Every node
  \<open>v\<close> in I or A at \<open>k\<close> draws for each of its neighbours in S at \<open>k\<close>.

  The progression pass never assigns anything but S to a node in S at \<open>k\<close>, the infection
  pass assigns E once for each draw with \<open>luck \<le> prob\<close> and nothing else, and removing the
  interaction edges assigns nothing: an E over a node in S is always the infection pass's.
\<close>

theorem timestep_transitions:
  assumes "timestep_passes k m = Inr (m1, m2, m3, m4)"
    and "u \<in> set (nodes (graph (graph_obj m1)))"
  shows "(get_state m k u = Inr D \<longrightarrow> get_state m4 (k + 1) u = Inr D) \<and>
     (get_state m k u = Inr R \<longrightarrow> get_state m4 (k + 1) u = Inr R) \<and>
     (get_state m k u = Inr S \<longrightarrow>
        get_state m4 (k + 1) u =
          Inr (if \<exists>e \<in> set (new_draws m m4). fst (snd (snd e)) = u \<and> infects e then E else S)) \<and>
     (\<forall>e \<in> set (new_draws m m4). case e of (t, v, w, luck, prob) \<Rightarrow>
        t = k \<and> (get_state m k v = Inr I \<or> get_state m k v = Inr A) \<and>
        get_state m k w = Inr S \<and>
        (\<exists>d. map_of (adj (graph (graph_obj m1)) v) w = Some d \<and> weight d = Some prob) \<and>
        0 \<le> luck \<and> luck < 1) \<and>
     draw_lucks (length (new_draws m m4)) (random_state m2)
       = (map (\<lambda>e. fst (snd (snd (snd e)))) (new_draws m m4), random_state m4) \<and>
     (\<forall>v \<in> set (nodes (graph (graph_obj m1))).
        get_state m k v = Inr I \<or> get_state m k v = Inr A \<longrightarrow>
        (\<forall>w \<in> fst ` set (adj (graph (graph_obj m1)) v).
           get_state m k w = Inr S \<longrightarrow>
           (\<exists>luck prob. (k, v, w, luck, prob) \<in> set (new_draws m m4)))) \<and>
     (\<forall>w \<in> set (new_writes m m2). get_state m k (fst (snd w)) = Inr S \<longrightarrow> snd (snd w) = S) \<and>
     new_writes m2 m3 = exposure_writes (new_draws m m4) \<and> new_writes m3 m4 = []"
proof -
  from assms(1) obtain pw ds where
    f: "writes m1 = writes m" "writes m2 = writes m @ pw"
      "writes m3 = writes m2 @ exposure_writes ds" "writes m4 = writes m3"
      "draws m3 = draws m @ ds" "draws m4 = draws m3"
      "\<forall>w \<in> set pw. \<forall>st. state_at (states_dict m) k (fst (snd w)) = Some st \<longrightarrow>
          st \<in> {R, D, S} \<longrightarrow> snd (snd w) = st"
      "\<forall>e \<in> set ds. draw_ok m1 e \<and> fst (snd e) \<in> set (nodes (graph (graph_obj m1))) \<and>
        state_at (states_dict m) k (fst (snd e)) \<in> {Some I, Some A}"
      "\<forall>v \<in> set (nodes (graph (graph_obj m1))).
        state_at (states_dict m) k v \<in> {Some I, Some A} \<longrightarrow>
        (\<forall>u \<in> fst ` set (adj (graph (graph_obj m1)) v).
           state_at (states_dict m) k u = Some S \<longrightarrow>
           (\<exists>luck prob. (k, v, u, luck, prob) \<in> set ds))"
      "states_dict m1 = states_dict m" "quiet (m\<lparr>curr_time := k\<rparr>) m1"
    by (rule timestep_passes_facts)
  have ct1: "curr_time m1 = k" using f(11) by (simp add: quiet_def)
  have nd: "new_draws m m4 = ds" using f(5,6) by (simp add: new_draws_def)
  have w02: "new_writes m m2 = pw" and w23: "new_writes m2 m3 = exposure_writes ds"
    and w34: "new_writes m3 m4 = []"
    using f(1,2,3,4) by (simp_all add: new_writes_def)
  note nx = timestep_next_state [OF assms(1) assms(2)]
  have d: "get_state m k u = Inr D \<longrightarrow> get_state m4 (k + 1) u = Inr D"
    using nx [of D] by (simp add: get_state_Inr_iff)
  have r: "get_state m k u = Inr R \<longrightarrow> get_state m4 (k + 1) u = Inr R"
    using nx [of R] by (simp add: get_state_Inr_iff)
  have s: "get_state m k u = Inr S \<longrightarrow>
        get_state m4 (k + 1) u =
          Inr (if \<exists>e \<in> set (new_draws m m4). fst (snd (snd e)) = u \<and> infects e then E else S)"
    using nx [of S] by (simp add: get_state_Inr_iff)
  have stream: "draw_lucks (length ds) (random_state m2)
       = (map (\<lambda>e. fst (snd (snd (snd e)))) ds, random_state m4)"
    using timestep_passes_rng [OF assms(1)] by (simp add: nd)
  have range: "0 \<le> fst (snd (snd (snd e))) \<and> fst (snd (snd (snd e))) < 1" if "e \<in> set ds" for e
  proof -
    from that have "fst (snd (snd (snd e))) \<in> set (map (\<lambda>e. fst (snd (snd (snd e)))) ds)" by simp
    also have "\<dots> = set (fst (draw_lucks (length ds) (random_state m2)))" by (simp add: stream)
    finally show ?thesis using draw_lucks_range [of "length ds" "random_state m2"] by blast
  qed
  have each: "case e of (t, v, w, luck, prob) \<Rightarrow>
        t = k \<and> (get_state m k v = Inr I \<or> get_state m k v = Inr A) \<and>
        get_state m k w = Inr S \<and>
        (\<exists>d. map_of (adj (graph (graph_obj m1)) v) w = Some d \<and> weight d = Some prob) \<and>
        0 \<le> luck \<and> luck < 1"
    if "e \<in> set ds" for e
  proof -
    obtain t v w luck prob where e: "e = (t, v, w, luck, prob)" by (cases e) auto
    from f(8) that have "draw_ok m1 e" "state_at (states_dict m) k (fst (snd e)) \<in> {Some I, Some A}"
      by simp_all
    with range [OF that] show ?thesis
      by (auto simp: e draw_ok_def ct1 f(10) get_state_Inr_iff)
  qed
  have complete: "\<forall>v \<in> set (nodes (graph (graph_obj m1))).
        get_state m k v = Inr I \<or> get_state m k v = Inr A \<longrightarrow>
        (\<forall>w \<in> fst ` set (adj (graph (graph_obj m1)) v).
           get_state m k w = Inr S \<longrightarrow>
           (\<exists>luck prob. (k, v, w, luck, prob) \<in> set ds))"
    using f(9) by (simp add: get_state_Inr_iff)
  have copy: "\<forall>w \<in> set pw. get_state m k (fst (snd w)) = Inr S \<longrightarrow> snd (snd w) = S"
    using f(7) by (simp add: get_state_Inr_iff)
  show ?thesis
    unfolding w02 w23 w34 using d r s each stream complete copy unfolding nd by blast
qed

theorem timestep_transitions_witness:
  "(\<exists>m1 m2 m3 m4. timestep_passes 0 (ex_seeded 1 [0, 2 ^ 52]) = Inr (m1, m2, m3, m4) \<and>
      get_state (ex_seeded 1 [0, 2 ^ 52]) 0 1 = Inr S \<and>
      new_draws (ex_seeded 1 [0, 2 ^ 52]) m4 = [(0, 0, 1, 1 / 2, 1 / 2)] \<and>
      get_state m4 (0 + 1) 1 = Inr E) \<and>
   (\<exists>m1 m2 m3 m4. timestep_passes 0 (ex_seeded 1 [0, 3 * 2 ^ 51]) = Inr (m1, m2, m3, m4) \<and>
      get_state (ex_seeded 1 [0, 3 * 2 ^ 51]) 0 1 = Inr S \<and>
      new_draws (ex_seeded 1 [0, 3 * 2 ^ 51]) m4 = [(0, 0, 1, 3 / 4, 1 / 2)] \<and>
      get_state m4 (0 + 1) 1 = Inr S)"
proof
  let ?m = "ex_seeded 1 [0, 2 ^ 52]"
  have "case timestep_passes 0 ?m of Inl e \<Rightarrow> False
        | Inr (m1, m2, m3, m4) \<Rightarrow> 1 \<in> set (nodes (graph (graph_obj m1))) \<and>
            new_draws ?m m4 = [(0, 0, 1, 1 / 2, 1 / 2)]"
    by code_simp
  then obtain m1 m2 m3 m4 where r: "timestep_passes 0 ?m = Inr (m1, m2, m3, m4)"
    and n: "1 \<in> set (nodes (graph (graph_obj m1)))"
    and ds: "new_draws ?m m4 = [(0, 0, 1, 1 / 2, 1 / 2)]"
    by (cases "timestep_passes 0 ?m") auto
  have st: "get_state ?m 0 1 = Inr S" by code_simp
  from timestep_transitions [OF r n] st
  have "get_state m4 (0 + 1) 1 =
      Inr (if \<exists>e \<in> set (new_draws ?m m4). fst (snd (snd e)) = 1 \<and> infects e then E else S)"
    by blast
  then have "get_state m4 (0 + 1) 1 = Inr E" unfolding ds by (simp add: infects_def)
  with r st ds show "\<exists>m1 m2 m3 m4. timestep_passes 0 ?m = Inr (m1, m2, m3, m4) \<and>
      get_state ?m 0 1 = Inr S \<and> new_draws ?m m4 = [(0, 0, 1, 1 / 2, 1 / 2)] \<and>
      get_state m4 (0 + 1) 1 = Inr E"
    by blast
next
  let ?m = "ex_seeded 1 [0, 3 * 2 ^ 51]"
  have "case timestep_passes 0 ?m of Inl e \<Rightarrow> False
        | Inr (m1, m2, m3, m4) \<Rightarrow> 1 \<in> set (nodes (graph (graph_obj m1))) \<and>
            new_draws ?m m4 = [(0, 0, 1, 3 / 4, 1 / 2)]"
    by code_simp
  then obtain m1 m2 m3 m4 where r: "timestep_passes 0 ?m = Inr (m1, m2, m3, m4)"
    and n: "1 \<in> set (nodes (graph (graph_obj m1)))"
    and ds: "new_draws ?m m4 = [(0, 0, 1, 3 / 4, 1 / 2)]"
    by (cases "timestep_passes 0 ?m") auto
  have st: "get_state ?m 0 1 = Inr S" by code_simp
  from timestep_transitions [OF r n] st
  have "get_state m4 (0 + 1) 1 =
      Inr (if \<exists>e \<in> set (new_draws ?m m4). fst (snd (snd e)) = 1 \<and> infects e then E else S)"
    by blast
  then have "get_state m4 (0 + 1) 1 = Inr S" unfolding ds by (simp add: infects_def)
  with r st ds show "\<exists>m1 m2 m3 m4. timestep_passes 0 ?m = Inr (m1, m2, m3, m4) \<and>
      get_state ?m 0 1 = Inr S \<and> new_draws ?m m4 = [(0, 0, 1, 3 / 4, 1 / 2)] \<and>
      get_state m4 (0 + 1) 1 = Inr S"
    by blast
qed

section \<open>Building the graph\<close>

text \<open>
  Five people in two age groups, for a grid of side 3: the supply gives the library's links
  (one of them a self-loop) and the draws that remove four grid points and shuffle the ages.
\<close>

definition ex_supply :: rng where
  "ex_supply = \<lparr>raws = [0, 0, 0, 0, 0, 0, 0, 0],
                 lattices = [[((0, 0), (0, 1)), ((0, 1), (1, 1)), ((1, 1), (0, 1)),
                              ((1, 0), (1, 0)), ((2, 2), (1, 1)), ((0, 2), (2, 2))]]\<rparr>"



section \<open>The matrix of close nodes\<close>

text \<open>
  C9. The array \<open>close_nodes_arr\<close> that \<open>create_graph\<close> computes is square, one row and one
  column for each node; its diagonal is 0; it is symmetric; and for two different nodes \<open>i\<close>
  and \<open>j\<close> the entry \<open>(i, j)\<close> is 1 when the Chebyshev distance between their grid locations
  is at most the closeness threshold of the configuration, and 0 otherwise. Nothing changes
  it afterwards: none of the four passes of a timestep assigns the array, the locations or
  the configuration, and so a whole run of \<open>basic_simulation\<close> on the graph ends with the
  same array, locations and configuration.
\<close>

theorem close_nodes_arr_chebyshev:
  assumes "create_graph age_struct rate (GO, g) = Inr (GO', g')"
  shows "length (close_nodes_arr GO') = length (nodes (graph GO')) \<and>
     (\<forall>i < length (nodes (graph GO')).
        length (close_nodes_arr GO' ! i) = length (nodes (graph GO')) \<and>
        close_nodes_arr GO' ! i ! i = 0 \<and>
        (\<forall>j < length (nodes (graph GO')).
           close_nodes_arr GO' ! i ! j = close_nodes_arr GO' ! j ! i \<and>
           (i \<noteq> j \<longrightarrow>
              close_nodes_arr GO' ! i ! j =
                (if \<exists>li lj. location (graph GO') i = Some li \<and> location (graph GO') j = Some lj \<and>
                      calculate_chebyshev_dist lj li \<le> closeness_threshold (graph_config GO')
                 then 1 else 0)))) \<and>
     (\<forall>k m m1 m2 m3 m4. timestep_passes k m = Inr (m1, m2, m3, m4) \<longrightarrow>
        list_all (\<lambda>m'. close_nodes_arr (graph_obj m') = close_nodes_arr (graph_obj m) \<and>
                       location (graph (graph_obj m')) = location (graph (graph_obj m)) \<and>
                       graph_config (graph_obj m') = graph_config (graph_obj m))
                 [m1, m2, m3, m4]) \<and>
     (\<forall>m0 m. graph_obj m0 = GO' \<longrightarrow> basic_simulation m0 = Inr m \<longrightarrow>
        close_nodes_arr (graph_obj m) = close_nodes_arr GO' \<and>
        location (graph (graph_obj m)) = location (graph GO') \<and>
        graph_config (graph_obj m) = graph_config GO')"
proof -
  let ?N = "sum_list (map snd age_struct)"
  let ?arr = "close_nodes_arr GO'"
  let ?thr = "closeness_threshold (graph_config GO')"
  from create_graph_valid [OF assms] have
    v: "1 \<le> short_connection_diameter (config_params (graph_config GO))"
      "0 \<le> long_connection_diameter (config_params (graph_config GO))"
      "0 \<le> decay (config_params (graph_config GO))"
    by simp_all
  from v obtain GO2 g2 dn de where
    res: "create_graph age_struct rate (GO, g) = Inr (GO2, g2)"
    and f: "nodes (graph GO2) = [0..<?N]"
      "location (graph GO2) = (\<lambda>i. if i < ?N then Some (dn ! i) else None)"
      "square ?N (close_nodes_arr GO2)"
      "\<forall>a < ?N. \<forall>b < ?N. close_nodes_arr GO2 ! a ! b =
        (if a \<noteq> b \<and>
            calculate_chebyshev_dist (the (location (graph GO2) b)) (the (location (graph GO2) a))
              \<le> closeness_threshold (graph_config GO2)
         then 1 else 0)"
    by (rule create_graph_result)
  from res assms have eq: "GO2 = GO'" by simp
  note f = f [unfolded eq]
  have len: "length (nodes (graph GO')) = ?N" using f(1) by simp
  have ent: "?arr ! a ! b =
      (if a \<noteq> b \<and> calculate_chebyshev_dist (dn ! b) (dn ! a) \<le> ?thr then 1 else 0)"
    if "a < ?N" "b < ?N" for a b
    using f(4) that by (simp add: f(2))
  have shape: "length ?arr = ?N" "\<And>i. i < ?N \<Longrightarrow> length (?arr ! i) = ?N"
    using f(3) by (simp_all add: square_def)
  have loc: "(\<exists>li lj. location (graph GO') a = Some li \<and> location (graph GO') b = Some lj \<and>
        calculate_chebyshev_dist lj li \<le> ?thr)
      = (calculate_chebyshev_dist (dn ! b) (dn ! a) \<le> ?thr)"
    if "a < ?N" "b < ?N" for a b
    using that by (simp add: f(2))
  have matrix: "length ?arr = length (nodes (graph GO')) \<and>
     (\<forall>i < length (nodes (graph GO')).
        length (?arr ! i) = length (nodes (graph GO')) \<and> ?arr ! i ! i = 0 \<and>
        (\<forall>j < length (nodes (graph GO')).
           ?arr ! i ! j = ?arr ! j ! i \<and>
           (i \<noteq> j \<longrightarrow>
              ?arr ! i ! j =
                (if \<exists>li lj. location (graph GO') i = Some li \<and> location (graph GO') j = Some lj \<and>
                      calculate_chebyshev_dist lj li \<le> ?thr
                 then 1 else 0))))"
    unfolding len
  proof (intro conjI allI impI)
    show "length ?arr = ?N" by (rule shape(1))
  next
    fix i assume "i < ?N"
    then show "length (?arr ! i) = ?N" by (rule shape(2))
  next
    fix i assume "i < ?N"
    then show "?arr ! i ! i = 0" using ent [of i i] by simp
  next
    fix i j assume ij: "i < ?N" "j < ?N"
    show "?arr ! i ! j = ?arr ! j ! i"
      unfolding ent [OF ij] ent [OF ij(2) ij(1)]
      by (simp add: calculate_chebyshev_dist_commute [of "dn ! i" "dn ! j"] eq_commute [of i j])
  next
    fix i j assume ij: "i < ?N" "j < ?N" "i \<noteq> j"
    show "?arr ! i ! j =
        (if \<exists>li lj. location (graph GO') i = Some li \<and> location (graph GO') j = Some lj \<and>
              calculate_chebyshev_dist lj li \<le> ?thr
         then 1 else 0)"
      unfolding loc [OF ij(1,2)] ent [OF ij(1,2)] using ij(3) by simp
  qed
  have passes: "list_all (\<lambda>m'. close_nodes_arr (graph_obj m') = close_nodes_arr (graph_obj m) \<and>
                       location (graph (graph_obj m')) = location (graph (graph_obj m)) \<and>
                       graph_config (graph_obj m') = graph_config (graph_obj m))
                 [m1, m2, m3, m4]"
    if r: "timestep_passes k m = Inr (m1, m2, m3, m4)" for k m m1 m2 m3 m4
  proof -
    from r obtain pw ds where p: "quiet (m\<lparr>curr_time := k\<rparr>) m1"
        "graph_obj m2 = graph_obj m1" "graph_obj m3 = graph_obj m1"
        "static_graph (graph_obj m1) (graph_obj m4)"
      by (rule timestep_passes_facts)
    from p(1) have s1: "static_graph (graph_obj m) (graph_obj m1)" by (simp add: quiet_def)
    from s1 p(4) have s4: "static_graph (graph_obj m) (graph_obj m4)" by (rule static_graph_trans)
    from s1 s4 p(2,3) show ?thesis by (simp add: static_graph_def)
  qed
  have run: "close_nodes_arr (graph_obj m) = close_nodes_arr GO' \<and>
        location (graph (graph_obj m)) = location (graph GO') \<and>
        graph_config (graph_obj m) = graph_config GO'"
    if "graph_obj m0 = GO'" "basic_simulation m0 = Inr m" for m0 m
    using basic_simulation_static [OF that(2)] that(1) by (simp add: static_graph_def)
  show ?thesis
  proof (intro conjI)
    show "\<forall>k m m1 m2 m3 m4. timestep_passes k m = Inr (m1, m2, m3, m4) \<longrightarrow>
        list_all (\<lambda>m'. close_nodes_arr (graph_obj m') = close_nodes_arr (graph_obj m) \<and>
                       location (graph (graph_obj m')) = location (graph (graph_obj m)) \<and>
                       graph_config (graph_obj m') = graph_config (graph_obj m))
                 [m1, m2, m3, m4]"
      using passes by blast
    show "\<forall>m0 m. graph_obj m0 = GO' \<longrightarrow> basic_simulation m0 = Inr m \<longrightarrow>
        close_nodes_arr (graph_obj m) = close_nodes_arr GO' \<and>
        location (graph (graph_obj m)) = location (graph GO') \<and>
        graph_config (graph_obj m) = graph_config GO'"
      using run by blast
  qed (use matrix in blast)+
qed

theorem close_nodes_arr_chebyshev_witness:
  "\<exists>GO' g'. create_graph [(''a'', 3), (''b'', 2)] (1 / 2) (ex_Graph 7, ex_supply) = Inr (GO', g') \<and>
     map (location (graph GO')) [0, 1, 2, 3, 4]
       = [Some (0, 1), Some (0, 2), Some (1, 0), Some (1, 1), Some (1, 2)] \<and>
     closeness_threshold (graph_config GO') = 1 \<and>
     close_nodes_arr GO'
       = [[0, 1, 1, 1, 1], [1, 0, 0, 1, 1], [1, 0, 0, 1, 0], [1, 1, 1, 0, 1], [1, 1, 0, 1, 0]] \<and>
     length (close_nodes_arr GO') = length (nodes (graph GO')) \<and>
     close_nodes_arr GO' ! 2 ! 4 = (if calculate_chebyshev_dist (1, 2) (1, 0) \<le> 1 then 1 else 0)"
proof -
  let ?r = "create_graph [(''a'', 3), (''b'', 2)] (1 / 2) (ex_Graph 7, ex_supply)"
  have ev: "case ?r of Inl e \<Rightarrow> False
      | Inr (GO', g') \<Rightarrow>
          map (location (graph GO')) [0, 1, 2, 3, 4]
            = [Some (0, 1), Some (0, 2), Some (1, 0), Some (1, 1), Some (1, 2)] \<and>
          closeness_threshold (graph_config GO') = 1 \<and> length (nodes (graph GO')) = 5 \<and>
          close_nodes_arr GO'
            = [[0, 1, 1, 1, 1], [1, 0, 0, 1, 1], [1, 0, 0, 1, 0], [1, 1, 1, 0, 1],
               [1, 1, 0, 1, 0]]"
    by code_simp
  then obtain GO' g' where r: "?r = Inr (GO', g')" by (cases ?r) auto
  from ev r have c: "map (location (graph GO')) [0, 1, 2, 3, 4]
            = [Some (0, 1), Some (0, 2), Some (1, 0), Some (1, 1), Some (1, 2)]"
      "closeness_threshold (graph_config GO') = 1" "length (nodes (graph GO')) = 5"
      "close_nodes_arr GO'
            = [[0, 1, 1, 1, 1], [1, 0, 0, 1, 1], [1, 0, 0, 1, 0], [1, 1, 1, 0, 1],
               [1, 1, 0, 1, 0]]"
    by simp_all
  from close_nodes_arr_chebyshev [OF r] have
    t: "length (close_nodes_arr GO') = length (nodes (graph GO'))"
      "\<forall>i < length (nodes (graph GO')). \<forall>j < length (nodes (graph GO')). i \<noteq> j \<longrightarrow>
         close_nodes_arr GO' ! i ! j =
           (if \<exists>li lj. location (graph GO') i = Some li \<and> location (graph GO') j = Some lj \<and>
                 calculate_chebyshev_dist lj li \<le> closeness_threshold (graph_config GO')
            then 1 else 0)"
    by blast+
  from c(1) have l: "location (graph GO') 2 = Some (1, 0)" "location (graph GO') 4 = Some (1, 2)"
    by simp_all
  from t(2) c(3) have "close_nodes_arr GO' ! 2 ! 4 =
           (if \<exists>li lj. location (graph GO') 2 = Some li \<and> location (graph GO') 4 = Some lj \<and>
                 calculate_chebyshev_dist lj li \<le> closeness_threshold (graph_config GO')
            then 1 else 0)"
    by simp
  then have "close_nodes_arr GO' ! 2 ! 4
      = (if calculate_chebyshev_dist (1, 2) (1, 0) \<le> 1 then 1 else 0)"
    unfolding l c(2) by simp
  with r c t(1) show ?thesis by simp
qed

end
